theory Spec2Isabelle
  imports Main "HOL-Library.Word"
begin

unbundle bit_operations_syntax

section \<open>The allocator of heapAllocator.c\<close>

text \<open>
  The embedding follows heapAllocator.c on an LP64 platform: \<open>size_t\<close> and pointers are
  64-bit words, \<open>int\<close> is a 32-bit word, the null pointer is the address 0. (Arithmetic
  on words wraps around. For the \<open>int\<close> counters C leaves overflow undefined; no property
  below depends on it.)
  Memory is a typed heap: a function from the address of a chunk header to the header's
  fields. Headers at distinct addresses are independent of each other, which is what the
  allocator relies on (payload bytes are never read or written by the allocator itself,
  and a caller writing outside its payload is external corruption, outside the model).
  Calls are sequential: the global mutex serialises them and has no other effect on the
  data, so lock and unlock are not part of the state. The text printed by \<open>perror\<close> and
  \<open>printf\<close> is not part of the state either.
\<close>

subsection \<open>Data\<close>

type_synonym addr = "64 word"

record heapChunk =
  magic :: "32 word"
  size_c :: "64 word"
  isFree :: bool
  next_c :: addr
  file_c :: string
  line_c :: "32 word"

record MemoryStats =
  allocCalls :: "32 word"
  totalAllocated :: "64 word"
  peakMemory :: "64 word"
  sbrkCalls :: "64 word"
  corruptedChunks :: "32 word"
  unfreedChunks :: "32 word"

type_synonym heap = "addr \<Rightarrow> heapChunk"

text \<open>
  The global variables \<open>mem_stats\<close> and \<open>allChunks\<close>, the headers in memory, and the
  program break of the process, which \<open>sbrk\<close> moves.
\<close>

record alloc_state =
  heap :: heap
  allChunks :: addr
  mem_stats :: MemoryStats
  brk :: addr

text \<open>\<open>sizeof(heapChunk)\<close> under LP64: fields at offsets 0, 8, 16, 24, 32, 40, padded to 48.\<close>

definition CHUNK_SIZE :: "64 word" where
  "CHUNK_SIZE = 48"

definition ALIGNMENT :: "64 word" where
  "ALIGNMENT = 8"

definition ALIGN :: "64 word \<Rightarrow> 64 word" where
  "ALIGN sz = (sz + (ALIGNMENT - 1)) AND NOT (ALIGNMENT - 1)"

definition MAGIC_NUMBER :: "32 word" where
  "MAGIC_NUMBER = 0x12345678"

subsection \<open>Writing one field of a header\<close>

definition set_magic :: "addr \<Rightarrow> 32 word \<Rightarrow> heap \<Rightarrow> heap" where
  "set_magic a v h = h(a := (h a)\<lparr>magic := v\<rparr>)"

definition set_size :: "addr \<Rightarrow> 64 word \<Rightarrow> heap \<Rightarrow> heap" where
  "set_size a v h = h(a := (h a)\<lparr>size_c := v\<rparr>)"

definition set_isFree :: "addr \<Rightarrow> bool \<Rightarrow> heap \<Rightarrow> heap" where
  "set_isFree a v h = h(a := (h a)\<lparr>isFree := v\<rparr>)"

definition set_next :: "addr \<Rightarrow> addr \<Rightarrow> heap \<Rightarrow> heap" where
  "set_next a v h = h(a := (h a)\<lparr>next_c := v\<rparr>)"

definition set_file :: "addr \<Rightarrow> string \<Rightarrow> heap \<Rightarrow> heap" where
  "set_file a v h = h(a := (h a)\<lparr>file_c := v\<rparr>)"

definition set_line :: "addr \<Rightarrow> 32 word \<Rightarrow> heap \<Rightarrow> heap" where
  "set_line a v h = h(a := (h a)\<lparr>line_c := v\<rparr>)"

subsection \<open>The free-list search\<close>

text \<open>
  The loop of \<open>findFreeChunk\<close>. The out-parameter \<open>*last\<close> is returned beside the result.
  A chain that runs into a cycle keeps the loop running: the value is \<open>None\<close>.
\<close>

partial_function (option) findFreeLoop ::
  "heap \<Rightarrow> addr \<Rightarrow> addr \<Rightarrow> 64 word \<Rightarrow> (addr \<times> addr) option" where
  "findFreeLoop h current lastp sz =
     (if current \<noteq> 0 \<and> \<not> (isFree (h current) \<and> sz \<le> size_c (h current))
      then findFreeLoop h (next_c (h current)) current sz
      else Some (current, lastp))"

definition findFreeChunk :: "alloc_state \<Rightarrow> addr \<Rightarrow> 64 word \<Rightarrow> (addr \<times> addr) option" where
  "findFreeChunk s lastp sz = findFreeLoop (heap s) (allChunks s) lastp sz"

subsection \<open>Splitting\<close>

definition splitChunk :: "addr \<Rightarrow> 64 word \<Rightarrow> heap \<Rightarrow> heap" where
  "splitChunk chunk sz h =
     (let newChunk = chunk + sz + CHUNK_SIZE;
          h1 = set_size newChunk (size_c (h chunk) - sz - CHUNK_SIZE) h;
          h2 = set_isFree newChunk True h1;
          h3 = set_next newChunk (next_c (h2 chunk)) h2;
          h4 = set_magic newChunk MAGIC_NUMBER h3;
          h5 = set_size chunk sz h4
      in set_next chunk newChunk h5)"

subsection \<open>Growing the arena\<close>

text \<open>
  \<open>sbrk\<close> belongs to the C library. Its model: the operating system grants the request or
  not (\<open>ok\<close>, an input of the call); a granted request returns the old program break and
  moves the break up by the increment; a request that is not granted, or that would leave
  the address space, returns \<open>(void *) -1\<close> and changes nothing.
\<close>

definition sbrk :: "bool \<Rightarrow> 64 word \<Rightarrow> alloc_state \<Rightarrow> addr \<times> alloc_state" where
  "sbrk ok incr s =
     (if ok \<and> unat (brk s) + unat incr < 2 ^ 64
      then (brk s, s\<lparr>brk := brk s + incr\<rparr>)
      else (- 1, s))"

definition sbrkWithStats :: "bool \<Rightarrow> 64 word \<Rightarrow> alloc_state \<Rightarrow> addr \<times> alloc_state" where
  "sbrkWithStats ok sz s =
     sbrk ok sz (s\<lparr>mem_stats := (mem_stats s)\<lparr>sbrkCalls := sbrkCalls (mem_stats s) + 1\<rparr>\<rparr>)"

subsection \<open>Allocation\<close>

definition stamp_origin :: "addr \<Rightarrow> string \<Rightarrow> 32 word \<Rightarrow> alloc_state \<Rightarrow> alloc_state" where
  "stamp_origin chunk f l s = s\<lparr>heap := set_line chunk l (set_file chunk f (heap s))\<rparr>"

text \<open>
  \<open>myAlloc\<close> returns the payload pointer (0 for \<open>NULL\<close>) and the new state. \<open>size\<close> is
  unsigned, so \<open>size <= 0\<close> is \<open>size = 0\<close>.
\<close>

definition myAlloc ::
  "bool \<Rightarrow> 64 word \<Rightarrow> string \<Rightarrow> 32 word \<Rightarrow> alloc_state \<Rightarrow> (addr \<times> alloc_state) option" where
  "myAlloc ok bytes f l s =
     (if bytes = 0 then Some (0, s)
      else
        let sz = ALIGN bytes;
            totalSize = sz + CHUNK_SIZE
        in case (if allChunks s \<noteq> 0 then findFreeChunk s (allChunks s) sz else Some (0, 0)) of
             None \<Rightarrow> None
           | Some (chunk, lastp) \<Rightarrow>
               if chunk \<noteq> 0 then
                 let h1 = (if CHUNK_SIZE + ALIGNMENT \<le> size_c (heap s chunk) - sz
                           then splitChunk chunk sz (heap s) else heap s);
                     s1 = s\<lparr>heap := set_isFree chunk False h1\<rparr>
                 in Some (chunk + CHUNK_SIZE, stamp_origin chunk f l s1)
               else
                 let (p, s1) = sbrkWithStats ok totalSize s in
                 if p = - 1 then Some (0, s1)
                 else
                   let h1 = set_size p sz (heap s1);
                       h2 = set_magic p MAGIC_NUMBER h1;
                       h3 = set_next p 0 h2;
                       h4 = set_isFree p False h3;
                       s2 = (if lastp \<noteq> 0 then s1\<lparr>heap := set_next lastp p h4\<rparr>
                             else s1\<lparr>heap := h4, allChunks := p\<rparr>)
                   in Some (p + CHUNK_SIZE, stamp_origin p f l s2))"

text \<open>
  \<open>allocWithStats\<close> (the macro \<open>heapAlloc\<close> expands to it) first counts the request: the
  call, the bytes, and the peak, which follows the running total.
\<close>

definition count_request :: "64 word \<Rightarrow> MemoryStats \<Rightarrow> MemoryStats" where
  "count_request bytes st =
     (let st1 = st\<lparr>allocCalls := allocCalls st + 1\<rparr>;
          st2 = st1\<lparr>totalAllocated := totalAllocated st1 + bytes\<rparr>
      in if peakMemory st2 < totalAllocated st2
         then st2\<lparr>peakMemory := totalAllocated st2\<rparr> else st2)"

definition allocWithStats ::
  "bool \<Rightarrow> 64 word \<Rightarrow> string \<Rightarrow> 32 word \<Rightarrow> alloc_state \<Rightarrow> (addr \<times> alloc_state) option" where
  "allocWithStats ok bytes f l s =
     myAlloc ok bytes f l (s\<lparr>mem_stats := count_request bytes (mem_stats s)\<rparr>)"

subsection \<open>Release\<close>

text \<open>
  The loop of \<open>heapMergeChunks\<close>, with its two assignments in the order of the source.
  A chunk whose free successors never end keeps the loop running: the value is \<open>None\<close>.
\<close>

partial_function (option) heapMergeChunks :: "addr \<Rightarrow> heap \<Rightarrow> heap option" where
  "heapMergeChunks chunk h =
     (if next_c (h chunk) \<noteq> 0 \<and> isFree (h (next_c (h chunk)))
      then
        let h1 = set_size chunk
                   (size_c (h chunk) + (CHUNK_SIZE + size_c (h (next_c (h chunk))))) h;
            h2 = set_next chunk (next_c (h1 (next_c (h1 chunk)))) h1
        in heapMergeChunks chunk h2
      else Some h)"

text \<open>
  \<open>heapFree\<close>: the branch for a wrong sentinel counts the chunk, unlocks and reports, and
  has no \<open>return\<close>: control goes on to the statements after it.
\<close>

definition heapFree :: "addr \<Rightarrow> alloc_state \<Rightarrow> alloc_state option" where
  "heapFree ptr s =
     (if ptr = 0 then Some s
      else
        let chunk = ptr - CHUNK_SIZE;
            s1 = (if magic (heap s chunk) \<noteq> MAGIC_NUMBER
                  then s\<lparr>mem_stats :=
                          (mem_stats s)\<lparr>corruptedChunks := corruptedChunks (mem_stats s) + 1\<rparr>\<rparr>
                  else s);
            h2 = set_isFree chunk True (heap s1)
        in if next_c (h2 chunk) \<noteq> 0
           then map_option (\<lambda>h. s1\<lparr>heap := h\<rparr>) (heapMergeChunks chunk h2)
           else Some (s1\<lparr>heap := h2\<rparr>))"

subsection \<open>Sequences of calls\<close>

datatype call = Allocate bool "64 word" string "32 word" | Release addr

text \<open>
  A sequence of calls of the public interface (\<open>heapAlloc\<close>, which is \<open>allocWithStats\<close>, and
  \<open>heapFree\<close>), as \<open>main\<close> runs one: the pointers the allocations returned, in order, and
  the final state.
\<close>

fun run :: "call list \<Rightarrow> alloc_state \<Rightarrow> (addr list \<times> alloc_state) option" where
  "run [] s = Some ([], s)"
| "run (Allocate ok bytes f l # cs) s =
     (case allocWithStats ok bytes f l s of
        None \<Rightarrow> None
      | Some (p, s') \<Rightarrow> map_option (\<lambda>(ps, t). (p # ps, t)) (run cs s'))"
| "run (Release ptr # cs) s =
     (case heapFree ptr s of None \<Rightarrow> None | Some s' \<Rightarrow> run cs s')"

text \<open>
  The state at program start: no chunk, all counters zero (\<open>mem_stats = {0}\<close>), the
  program break at \<open>b\<close>. The content of the memory that no header was written to yet is
  immaterial; it is all zeros here.
\<close>

definition chunk0 :: heapChunk where
  "chunk0 = \<lparr>magic = 0, size_c = 0, isFree = False, next_c = 0, file_c = [], line_c = 0\<rparr>"

definition heap0 :: heap where
  "heap0 = (\<lambda>_. chunk0)"

definition stats0 :: MemoryStats where
  "stats0 = \<lparr>allocCalls = 0, totalAllocated = 0, peakMemory = 0, sbrkCalls = 0,
             corruptedChunks = 0, unfreedChunks = 0\<rparr>"

definition init :: "addr \<Rightarrow> alloc_state" where
  "init b = \<lparr>heap = heap0, allChunks = 0, mem_stats = stats0, brk = b\<rparr>"

text \<open>The loops are executable: their defining equations are code equations.\<close>

declare findFreeLoop.simps [code]
declare heapMergeChunks.simps [code]

subsection \<open>Example states\<close>

text \<open>
  The state after \<open>heapAlloc(5)\<close> at program start with the break at 4096, in which the
  caller then overwrote the sentinel of the chunk (at 4096, payload at 4144) with 0.
\<close>

definition corrupted_example :: alloc_state where
  "corrupted_example =
     \<lparr>heap = heap0(4096 := \<lparr>magic = 0, size_c = 8, isFree = False, next_c = 0,
                              file_c = ''heapAllocator.c'', line_c = 241\<rparr>),
      allChunks = 4096,
      mem_stats = \<lparr>allocCalls = 1, totalAllocated = 5, peakMemory = 5, sbrkCalls = 1,
                   corruptedChunks = 0, unfreedChunks = 0\<rparr>,
      brk = 4152\<rparr>"

text \<open>The header at an address, read from a state.\<close>

definition chunk_at :: "addr \<Rightarrow> alloc_state \<Rightarrow> heapChunk" where
  "chunk_at a s = heap s a"

text \<open>
  The state of \<open>main\<close> after \<open>heapAlloc(5)\<close>, \<open>heapAlloc(60)\<close>, \<open>heapAlloc(5)\<close> and
  \<open>heapFree\<close> of the second pointer, with the break at 4096 at program start: three
  chunks at 4096, 4152 and 4264, the middle one free.
\<close>

definition main_example :: alloc_state where
  "main_example =
     \<lparr>heap = heap0
        (4096 := \<lparr>magic = 0x12345678, size_c = 8, isFree = False, next_c = 4152,
                  file_c = ''heapAllocator.c'', line_c = 241\<rparr>,
         4152 := \<lparr>magic = 0x12345678, size_c = 64, isFree = True, next_c = 4264,
                  file_c = ''heapAllocator.c'', line_c = 242\<rparr>,
         4264 := \<lparr>magic = 0x12345678, size_c = 8, isFree = False, next_c = 0,
                  file_c = ''heapAllocator.c'', line_c = 243\<rparr>),
      allChunks = 4096,
      mem_stats = \<lparr>allocCalls = 3, totalAllocated = 70, peakMemory = 70, sbrkCalls = 3,
                   corruptedChunks = 0, unfreedChunks = 0\<rparr>,
      brk = 4320\<rparr>"

text \<open>
  Three chunks of size 8 at 4096, 4152 and 4208, the last one free: the state after three
  calls \<open>heapAlloc(5)\<close> and \<open>heapFree\<close> of the third pointer.
\<close>

definition cascade_example :: alloc_state where
  "cascade_example =
     \<lparr>heap = heap0
        (4096 := \<lparr>magic = 0x12345678, size_c = 8, isFree = False, next_c = 4152,
                  file_c = ''heapAllocator.c'', line_c = 1\<rparr>,
         4152 := \<lparr>magic = 0x12345678, size_c = 8, isFree = False, next_c = 4208,
                  file_c = ''heapAllocator.c'', line_c = 2\<rparr>,
         4208 := \<lparr>magic = 0x12345678, size_c = 8, isFree = True, next_c = 0,
                  file_c = ''heapAllocator.c'', line_c = 3\<rparr>),
      allChunks = 4096,
      mem_stats = \<lparr>allocCalls = 3, totalAllocated = 15, peakMemory = 15, sbrkCalls = 3,
                   corruptedChunks = 0, unfreedChunks = 0\<rparr>,
      brk = 4264\<rparr>"

subsection \<open>The chunk chain as a list\<close>

text \<open>
  \<open>chain h p cs\<close>: following \<open>next\<close> from \<open>p\<close> visits exactly the chunks \<open>cs\<close>, in this
  order, and then reaches the null pointer.
\<close>

fun chain :: "heap \<Rightarrow> addr \<Rightarrow> addr list \<Rightarrow> bool" where
  "chain h p [] = (p = 0)"
| "chain h p (c # cs) = (p = c \<and> c \<noteq> 0 \<and> chain h (next_c (h c)) cs)"

text \<open>The test of the search: the chunk is free and large enough.\<close>

definition fits :: "heap \<Rightarrow> 64 word \<Rightarrow> addr \<Rightarrow> bool" where
  "fits h sz c = (isFree (h c) \<and> sz \<le> size_c (h c))"

text \<open>
  What a release absorbs from the chunks \<open>cs\<close> that follow the released one: the run of
  free chunks at the front of \<open>cs\<close>, each with its header; and the chunk that follows
  the run (null when the run reaches the end of the chain).
\<close>

definition absorbed :: "heap \<Rightarrow> addr list \<Rightarrow> 64 word" where
  "absorbed h cs = (\<Sum>x\<leftarrow>takeWhile (\<lambda>x. isFree (h x)) cs. CHUNK_SIZE + size_c (h x))"

definition successor_after :: "heap \<Rightarrow> addr list \<Rightarrow> addr" where
  "successor_after h cs = (case dropWhile (\<lambda>x. isFree (h x)) cs of [] \<Rightarrow> 0 | d # _ \<Rightarrow> d)"

definition released :: "heap \<Rightarrow> addr \<Rightarrow> addr list \<Rightarrow> heap" where
  "released h c rest =
     h(c := (h c)\<lparr>isFree := True,
                  size_c := size_c (h c) + absorbed h rest,
                  next_c := successor_after h rest\<rparr>)"


subsection \<open>Chunks reachable from the chain head\<close>

text \<open>
  \<open>in_chain h p c\<close>: the chunk \<open>c\<close> is reached from \<open>p\<close> by following \<open>next\<close> through
  non-null pointers, whatever the shape of the chain.
\<close>

inductive in_chain :: "heap \<Rightarrow> addr \<Rightarrow> addr \<Rightarrow> bool" for h :: heap and p :: addr where
  head: "p \<noteq> 0 \<Longrightarrow> in_chain h p p"
| step: "in_chain h p c \<Longrightarrow> next_c (h c) \<noteq> 0 \<Longrightarrow> in_chain h p (next_c (h c))"

code_pred in_chain .

text \<open>A header with the sentinel and a size that is a multiple of 8.\<close>

definition sound_header :: "heapChunk \<Rightarrow> bool" where
  "sound_header ch = (magic ch = MAGIC_NUMBER \<and> 8 dvd unat (size_c ch))"

text \<open>
  \<open>cov h p R\<close>: the set \<open>R\<close> of addresses holds the head \<open>p\<close> (unless null), is closed
  under \<open>next\<close>, and all its headers are sound. Such a set holds every chunk reachable
  from \<open>p\<close>.
\<close>

definition cov :: "heap \<Rightarrow> addr \<Rightarrow> addr set \<Rightarrow> bool" where
  "cov h p R =
     ((p = 0 \<or> p \<in> R) \<and>
      (\<forall>x \<in> R. (next_c (h x) = 0 \<or> next_c (h x) \<in> R) \<and> sound_header (h x)))"

subsection \<open>Statistics over a run\<close>

text \<open>The bytes a call asks for, and the values the cumulative counter takes over a run.\<close>

fun requested :: "call \<Rightarrow> 64 word" where
  "requested (Allocate ok n f l) = n"
| "requested (Release p) = 0"

fun running_totals :: "64 word \<Rightarrow> call list \<Rightarrow> 64 word list" where
  "running_totals t [] = []"
| "running_totals t (Allocate ok n f l # cs) = (t + n) # running_totals (t + n) cs"
| "running_totals t (Release p # cs) = running_totals t cs"

text \<open>
  The reading of the peak statistic as bytes outstanding: the largest value, over a run
  with the returned pointers \<open>ps\<close>, of the total bytes requested by the allocations that
  succeeded and were not released yet (\<open>live\<close> holds them with their pointers).
\<close>

fun outstanding_peak :: "call list \<Rightarrow> addr list \<Rightarrow> (addr \<times> nat) list \<Rightarrow> nat" where
  "outstanding_peak [] ps live = sum_list (map snd live)"
| "outstanding_peak (Allocate ok n f l # cs) ps live =
     max (sum_list (map snd live))
       (outstanding_peak cs (tl ps)
          (if ps = [] \<or> hd ps = 0 then live else (hd ps, unat n) # live))"
| "outstanding_peak (Release q # cs) ps live =
     max (sum_list (map snd live))
       (outstanding_peak cs ps (filter (\<lambda>e. fst e \<noteq> q) live))"

definition claimed_peak :: "call list \<Rightarrow> addr list \<times> alloc_state \<Rightarrow> nat" where
  "claimed_peak calls r = outstanding_peak calls (fst r) []"

subsection \<open>Well-formed states\<close>

text \<open>
  A chunk occupies the addresses from its header to \<open>chunk_end\<close>: the header and the
  payload. In a well-formed state the chain is a list that ends in null, its chunks lie
  in the order of the chain, without overlap and below the program break (the numbers
  \<open>bounds\<close> are in ascending order, so no chunk wraps around the address space), and the
  break is not the null address.
\<close>

definition chunk_end :: "heap \<Rightarrow> addr \<Rightarrow> nat" where
  "chunk_end h c = unat c + unat CHUNK_SIZE + unat (size_c (h c))"

definition bounds :: "heap \<Rightarrow> addr list \<Rightarrow> nat list" where
  "bounds h cs = concat (map (\<lambda>c. [unat c, chunk_end h c]) cs)"

definition wf :: "alloc_state \<Rightarrow> addr list \<Rightarrow> bool" where
  "wf s cs =
     (chain (heap s) (allChunks s) cs \<and> sorted (bounds (heap s) cs @ [unat (brk s)])
      \<and> brk s \<noteq> 0)"

section \<open>Properties\<close>

lemmas field_setters =
  set_magic_def set_size_def set_isFree_def set_next_def set_file_def set_line_def

lemmas run_defs =
  allocWithStats_def count_request_def myAlloc_def init_def stats0_def heap0_def
  chunk0_def findFreeChunk_def findFreeLoop.simps heapFree_def heapMergeChunks.simps
  sbrkWithStats_def sbrk_def ALIGN_def ALIGNMENT_def CHUNK_SIZE_def stamp_origin_def splitChunk_def
  field_setters MAGIC_NUMBER_def Let_def


subsection \<open>Release of a chunk with a wrong sentinel\<close>

lemma corrupted_example_origin:
  "map_option snd (allocWithStats True 5 ''heapAllocator.c'' 241 (init 4096)) =
     Some (corrupted_example\<lparr>heap := set_magic 4096 MAGIC_NUMBER (heap corrupted_example)\<rparr>)"
  by (simp add: allocWithStats_def count_request_def myAlloc_def init_def stats0_def heap0_def
      chunk0_def sbrkWithStats_def sbrk_def ALIGN_def ALIGNMENT_def CHUNK_SIZE_def stamp_origin_def
      field_setters MAGIC_NUMBER_def corrupted_example_def Let_def fun_eq_iff)

text \<open>
  C1 (the code departs from the claim). Releasing the payload pointer 4144 of the chunk
  whose sentinel was overwritten counts the corruption and then marks the chunk free all
  the same: \<open>isFree\<close> was false before the call and is true after it.
\<close>

theorem heapFree_bad_sentinel_marks_free:
  "heapFree 4144 corrupted_example =
     Some (corrupted_example
            \<lparr>heap := set_isFree 4096 True (heap corrupted_example),
             mem_stats := (mem_stats corrupted_example)\<lparr>corruptedChunks := 1\<rparr>\<rparr>)
   \<and> \<not> isFree (heap corrupted_example 4096)
   \<and> magic (heap corrupted_example 4096) \<noteq> MAGIC_NUMBER"
  by (simp add: heapFree_def corrupted_example_def CHUNK_SIZE_def MAGIC_NUMBER_def
      field_setters Let_def)

subsection \<open>Chains\<close>

lemma findFreeLoop_chain:
  "chain h p cs \<Longrightarrow>
   findFreeLoop h p lastp sz =
     Some (case find (fits h sz) cs of Some c \<Rightarrow> c | None \<Rightarrow> 0,
           last (lastp # takeWhile (\<lambda>c. \<not> fits h sz c) cs))"
proof (induction cs arbitrary: p lastp)
  case Nil
  then show ?case by (simp add: findFreeLoop.simps)
next
  case (Cons c cs)
  then have p: "p = c" "c \<noteq> 0" and rest: "chain h (next_c (h c)) cs" by simp_all
  show ?case
  proof (cases "fits h sz c")
    case True
    then show ?thesis using p by (subst findFreeLoop.simps) (simp add: fits_def)
  next
    case False
    have "findFreeLoop h p lastp sz = findFreeLoop h (next_c (h c)) c sz"
      using False p by (subst findFreeLoop.simps) (auto simp: fits_def)
    then show ?thesis using Cons.IH [OF rest, of c] False by simp
  qed
qed

lemma chain_unique: "chain h p cs \<Longrightarrow> chain h p ds \<Longrightarrow> cs = ds"
proof (induction cs arbitrary: p ds)
  case Nil
  then show ?case by (cases ds) auto
next
  case (Cons c cs)
  then show ?case by (cases ds) auto
qed

lemma chain_suffix_from:
  "chain h p (xs @ c # ys) \<Longrightarrow> chain h c (c # ys)"
  by (induction xs arbitrary: p) auto

lemma chain_not_in_tail: "chain h c (c # cs) \<Longrightarrow> c \<notin> set cs"
proof
  assume ch: "chain h c (c # cs)" and "c \<in> set cs"
  then obtain xs ys where "cs = xs @ c # ys" by (meson split_list)
  with ch have "chain h c ((c # xs) @ c # ys)" by simp
  then have "chain h c (c # ys)" by (rule chain_suffix_from)
  with ch have "c # cs = c # ys" by (rule chain_unique)
  with \<open>cs = xs @ c # ys\<close> show False by simp
qed

lemma chain_distinct: "chain h p cs \<Longrightarrow> distinct cs"
proof (induction cs arbitrary: p)
  case Nil
  then show ?case by simp
next
  case (Cons c cs)
  then have "chain h c (c # cs)" by simp
  then have "c \<notin> set cs" by (rule chain_not_in_tail)
  with Cons show ?case by auto
qed

lemma chain_nonzero: "chain h p cs \<Longrightarrow> 0 \<notin> set cs"
  by (induction cs arbitrary: p) auto

lemma chain_cong:
  "(\<And>x. x \<in> set cs \<Longrightarrow> next_c (h' x) = next_c (h x)) \<Longrightarrow> chain h' p cs = chain h p cs"
  by (induction cs arbitrary: p) auto


lemma chain_upd_other: "c \<notin> set cs \<Longrightarrow> chain (h(c := v)) p cs = chain h p cs"
  by (rule chain_cong) auto

lemma absorbed_simps [simp]:
  "absorbed h [] = 0"
  "absorbed h (x # xs) = (if isFree (h x) then CHUNK_SIZE + size_c (h x) + absorbed h xs else 0)"
  by (simp_all add: absorbed_def)

lemma successor_after_simps [simp]:
  "successor_after h [] = 0"
  "successor_after h (x # xs) = (if isFree (h x) then successor_after h xs else x)"
  by (simp_all add: successor_after_def)

lemma absorbed_upd_other [simp]: "c \<notin> set cs \<Longrightarrow> absorbed (h(c := v)) cs = absorbed h cs"
  by (induction cs) auto

lemma successor_after_upd_other [simp]:
  "c \<notin> set cs \<Longrightarrow> successor_after (h(c := v)) cs = successor_after h cs"
  by (induction cs) auto

lemma upd_next_same: "next_c r = v \<Longrightarrow> r\<lparr>next_c := v\<rparr> = r"
  by (drule sym) simp

lemma heapMergeChunks_chain:
  "chain h (next_c (h c)) cs \<Longrightarrow> c \<notin> set cs \<Longrightarrow>
   heapMergeChunks c h =
     Some (h(c := (h c)\<lparr>size_c := size_c (h c) + absorbed h cs,
                        next_c := successor_after h cs\<rparr>))"
proof (induction cs arbitrary: h)
  case Nil
  then have z: "next_c (h c) = 0" by simp
  show ?case using z by (subst heapMergeChunks.simps) (simp add: upd_next_same)
next
  case (Cons x xs)
  then have nx: "next_c (h c) = x" "x \<noteq> 0" and rest: "chain h (next_c (h x)) xs"
    and neq: "x \<noteq> c" "c \<notin> set xs" by auto
  show ?case
  proof (cases "isFree (h x)")
    case False
    then show ?thesis using nx by (subst heapMergeChunks.simps) (simp add: upd_next_same)
  next
    case True
    define h2 where
      "h2 = h(c := (h c)\<lparr>size_c := size_c (h c) + (CHUNK_SIZE + size_c (h x)),
                          next_c := next_c (h x)\<rparr>)"
    have step: "heapMergeChunks c h = heapMergeChunks c h2"
      using True nx neq
      by (subst heapMergeChunks.simps) (simp add: h2_def set_size_def set_next_def Let_def)
    have "chain h2 (next_c (h2 c)) xs"
      using rest neq by (simp add: h2_def chain_upd_other)
    from Cons.IH [OF this neq(2)] have
      "heapMergeChunks c h2 =
         Some (h2(c := (h2 c)\<lparr>size_c := size_c (h2 c) + absorbed h2 xs,
                               next_c := successor_after h2 xs\<rparr>))" .
    then show ?thesis
      using step True neq by (simp add: h2_def add.assoc fun_eq_iff)
  qed
qed

lemma chain_dropWhile:
  "chain h p cs \<Longrightarrow> chain h (successor_after h cs) (dropWhile (\<lambda>x. isFree (h x)) cs)"
proof (induction cs arbitrary: p)
  case Nil
  then show ?case by simp
next
  case (Cons x xs)
  then show ?case by auto
qed

lemma heapFree_chain:
  assumes ch: "chain (heap s) (allChunks s) (pre @ c # rest)" and nn: "c + CHUNK_SIZE \<noteq> 0"
  shows "heapFree (c + CHUNK_SIZE) s =
           Some ((if magic (heap s c) \<noteq> MAGIC_NUMBER
                  then s\<lparr>mem_stats :=
                          (mem_stats s)\<lparr>corruptedChunks := corruptedChunks (mem_stats s) + 1\<rparr>\<rparr>
                  else s)\<lparr>heap := released (heap s) c rest\<rparr>)"
proof -
  define h2 where "h2 = set_isFree c True (heap s)"
  from ch have "chain (heap s) c (c # rest)" by (rule chain_suffix_from)
  then have nin: "c \<notin> set rest" and rest: "chain (heap s) (next_c (heap s c)) rest"
    using chain_not_in_tail [of "heap s" c rest] by simp_all
  have "chain h2 (next_c (h2 c)) rest"
    using rest nin by (simp add: h2_def set_isFree_def chain_upd_other)
  from heapMergeChunks_chain [OF this nin]
  have m: "heapMergeChunks c h2 = Some (released (heap s) c rest)"
    using nin by (simp add: h2_def set_isFree_def released_def)
  have z: "next_c (h2 c) = 0 \<Longrightarrow> released (heap s) c rest = h2"
    using rest by (cases rest) (auto simp: h2_def set_isFree_def released_def)
  show ?thesis
    using nn m z by (auto simp: heapFree_def Let_def h2_def [symmetric])
qed

subsection \<open>The free-list search\<close>

lemma main_example_origin:
  "run [Allocate True 5 ''heapAllocator.c'' 241, Allocate True 60 ''heapAllocator.c'' 242,
        Allocate True 5 ''heapAllocator.c'' 243, Release 4200] (init 4096) =
     Some ([4144, 4200, 4312], main_example)"
  by (simp add: allocWithStats_def count_request_def myAlloc_def init_def stats0_def heap0_def
      chunk0_def findFreeChunk_def findFreeLoop.simps heapFree_def heapMergeChunks.simps
      sbrkWithStats_def sbrk_def ALIGN_def ALIGNMENT_def CHUNK_SIZE_def stamp_origin_def
      field_setters MAGIC_NUMBER_def main_example_def Let_def fun_eq_iff)

text \<open>
  C2. On a chain \<open>cs\<close>, the search returns the first chunk of \<open>cs\<close> that is free and has
  at least the requested size, and null when there is none; beside it, it returns the
  last chunk it passed over (the caller's \<open>lastp\<close> when it passed over none). With no
  match on a chain that is not empty, that is the last chunk of the chain.
\<close>

theorem findFreeChunk_first_fit:
  assumes "chain (heap s) (allChunks s) cs"
  shows "findFreeChunk s lastp sz =
           Some (case find (fits (heap s) sz) cs of Some c \<Rightarrow> c | None \<Rightarrow> 0,
                 last (lastp # takeWhile (\<lambda>c. \<not> fits (heap s) sz c) cs))
         \<and> ((\<forall>c \<in> set cs. \<not> fits (heap s) sz c) \<longrightarrow> cs \<noteq> [] \<longrightarrow>
              findFreeChunk s lastp sz = Some (0, last cs))"
proof -
  have eq: "findFreeChunk s lastp sz =
           Some (case find (fits (heap s) sz) cs of Some c \<Rightarrow> c | None \<Rightarrow> 0,
                 last (lastp # takeWhile (\<lambda>c. \<not> fits (heap s) sz c) cs))"
    unfolding findFreeChunk_def using assms by (rule findFreeLoop_chain)
  moreover have "findFreeChunk s lastp sz = Some (0, last cs)"
    if none: "\<forall>c \<in> set cs. \<not> fits (heap s) sz c" and ne: "cs \<noteq> []"
  proof -
    from none have fn: "find (fits (heap s) sz) cs = None" by (simp add: find_None_iff)
    from none have tw: "takeWhile (\<lambda>c. \<not> fits (heap s) sz c) cs = cs" by simp
    show ?thesis using ne unfolding eq fn tw by simp
  qed
  ultimately show ?thesis by blast
qed

theorem findFreeChunk_first_fit_witness:
  "chain (heap main_example) (allChunks main_example) [4096, 4152, 4264]
   \<and> findFreeChunk main_example 4096 8 = Some (4152, 4096)
   \<and> findFreeChunk main_example 4096 128 = Some (0, 4264)"
  using findFreeChunk_first_fit [of main_example "[4096, 4152, 4264]" 4096 8]
    findFreeChunk_first_fit [of main_example "[4096, 4152, 4264]" 4096 128]
  by (simp add: main_example_def fits_def)

text \<open>A chunk the search returns is free and large enough, also on a chain of any shape.\<close>

lemma findFreeLoop_fits_aux:
  assumes "findFreeLoop h p lastp sz = Some r"
  shows "fst r \<noteq> 0 \<longrightarrow> fits h sz (fst r)"
  by (rule findFreeLoop.raw_induct
        [where P = "\<lambda>h p lastp sz r. fst r \<noteq> 0 \<longrightarrow> fits h sz (fst r)", OF _ assms])
     (auto simp: fits_def split: if_splits)

lemma findFreeLoop_fits:
  "findFreeLoop h p lastp sz = Some r \<Longrightarrow> fst r \<noteq> 0 \<Longrightarrow> fits h sz (fst r)"
  using findFreeLoop_fits_aux by blast

subsection \<open>Reuse of a free chunk\<close>

text \<open>The header that a split writes lies beyond the header of the chunk it splits.\<close>

lemma split_target_distinct:
  assumes "sz \<le> size_c ch" "CHUNK_SIZE + ALIGNMENT \<le> size_c ch - sz"
  shows "c + sz + CHUNK_SIZE \<noteq> c"
proof -
  have "unat (size_c ch - sz) = unat (size_c ch) - unat sz"
    using assms(1) by (simp add: unat_sub)
  moreover have "56 \<le> unat (size_c ch - sz)"
    using assms(2) by (simp add: word_le_nat_alt CHUNK_SIZE_def ALIGNMENT_def)
  moreover have "unat (size_c ch) < 2 ^ 64"
    using unsigned_less [of "size_c ch", where 'a = nat] by simp
  ultimately have "unat sz + 48 < 2 ^ 64" by simp
  then have "unat (sz + 48) = unat sz + 48" by (simp add: unat_add_lem [THEN iffD1])
  then have "sz + 48 \<noteq> 0" by (metis add_is_0 unat_0 zero_neq_numeral)
  then show ?thesis by (simp add: CHUNK_SIZE_def add.assoc)
qed

text \<open>The result of an allocation that found the chunk \<open>c\<close>.\<close>

lemma myAlloc_found:
  assumes nz: "bytes \<noteq> 0" and head: "allChunks s \<noteq> 0"
    and found: "findFreeChunk s (allChunks s) (ALIGN bytes) = Some (c, lastp)" and c: "c \<noteq> 0"
  shows "ALIGN bytes \<le> size_c (heap s c)"
    and "CHUNK_SIZE + ALIGNMENT \<le> size_c (heap s c) - ALIGN bytes \<Longrightarrow>
           c + ALIGN bytes + CHUNK_SIZE \<noteq> c \<and>
           myAlloc ok bytes f l s =
             Some (c + CHUNK_SIZE,
                   s\<lparr>heap := (heap s)
                      (c + ALIGN bytes + CHUNK_SIZE :=
                         (heap s (c + ALIGN bytes + CHUNK_SIZE))
                           \<lparr>magic := MAGIC_NUMBER,
                            size_c := size_c (heap s c) - ALIGN bytes - CHUNK_SIZE,
                            isFree := True,
                            next_c := next_c (heap s c)\<rparr>,
                       c := (heap s c)
                           \<lparr>size_c := ALIGN bytes, isFree := False,
                            next_c := c + ALIGN bytes + CHUNK_SIZE,
                            file_c := f, line_c := l\<rparr>)\<rparr>)"
    and "\<not> CHUNK_SIZE + ALIGNMENT \<le> size_c (heap s c) - ALIGN bytes \<Longrightarrow>
           myAlloc ok bytes f l s =
             Some (c + CHUNK_SIZE,
                   s\<lparr>heap := (heap s)
                      (c := (heap s c)\<lparr>isFree := False, file_c := f, line_c := l\<rparr>)\<rparr>)"
proof -
  have "fits (heap s) (ALIGN bytes) c"
    using findFreeLoop_fits [of "heap s" "allChunks s" "allChunks s" "ALIGN bytes" "(c, lastp)"]
      found c by (simp add: findFreeChunk_def)
  then show le: "ALIGN bytes \<le> size_c (heap s c)" by (simp add: fits_def)
  {
    assume big: "CHUNK_SIZE + ALIGNMENT \<le> size_c (heap s c) - ALIGN bytes"
    have ne: "c + ALIGN bytes + CHUNK_SIZE \<noteq> c"
      using le big by (rule split_target_distinct)
    then show "c + ALIGN bytes + CHUNK_SIZE \<noteq> c \<and>
           myAlloc ok bytes f l s =
             Some (c + CHUNK_SIZE,
                   s\<lparr>heap := (heap s)
                      (c + ALIGN bytes + CHUNK_SIZE :=
                         (heap s (c + ALIGN bytes + CHUNK_SIZE))
                           \<lparr>magic := MAGIC_NUMBER,
                            size_c := size_c (heap s c) - ALIGN bytes - CHUNK_SIZE,
                            isFree := True,
                            next_c := next_c (heap s c)\<rparr>,
                       c := (heap s c)
                           \<lparr>size_c := ALIGN bytes, isFree := False,
                            next_c := c + ALIGN bytes + CHUNK_SIZE,
                            file_c := f, line_c := l\<rparr>)\<rparr>)"
      using nz head found c big
      by (simp add: myAlloc_def Let_def splitChunk_def stamp_origin_def field_setters fun_eq_iff)
  }
  {
    assume "\<not> CHUNK_SIZE + ALIGNMENT \<le> size_c (heap s c) - ALIGN bytes"
    then show "myAlloc ok bytes f l s =
             Some (c + CHUNK_SIZE,
                   s\<lparr>heap := (heap s)
                      (c := (heap s c)\<lparr>isFree := False, file_c := f, line_c := l\<rparr>)\<rparr>)"
      using nz head found c
      by (simp add: myAlloc_def Let_def stamp_origin_def field_setters fun_eq_iff)
  }
qed

text \<open>
  C3. An allocation that reuses the chunk \<open>c\<close> found by the search (so \<open>c\<close> has at least
  the aligned size \<open>ALIGN bytes\<close>). If the excess \<open>size - ALIGN bytes\<close> is at least
  \<open>CHUNK_SIZE + ALIGNMENT\<close>, the header at \<open>c + ALIGN bytes + CHUNK_SIZE\<close> becomes a free
  chunk with the sentinel, the size \<open>size - ALIGN bytes - CHUNK_SIZE\<close> and the old successor
  of \<open>c\<close>, while \<open>c\<close> gets the size \<open>ALIGN bytes\<close> and the new chunk as successor. Otherwise
  the size and the successor of \<open>c\<close> stay as they are. In both cases \<open>c\<close> is marked
  occupied and stamped with the origin, its payload pointer is returned, and nothing
  else changes.
\<close>

theorem myAlloc_reuse:
  assumes nz: "bytes \<noteq> 0" and head: "allChunks s \<noteq> 0"
    and found: "findFreeChunk s (allChunks s) (ALIGN bytes) = Some (c, lastp)" and c: "c \<noteq> 0"
  shows "ALIGN bytes \<le> size_c (heap s c)
    \<and> (CHUNK_SIZE + ALIGNMENT \<le> size_c (heap s c) - ALIGN bytes \<longrightarrow>
           c + ALIGN bytes + CHUNK_SIZE \<noteq> c \<and>
           myAlloc ok bytes f l s =
             Some (c + CHUNK_SIZE,
                   s\<lparr>heap := (heap s)
                      (c + ALIGN bytes + CHUNK_SIZE :=
                         (heap s (c + ALIGN bytes + CHUNK_SIZE))
                           \<lparr>magic := MAGIC_NUMBER,
                            size_c := size_c (heap s c) - ALIGN bytes - CHUNK_SIZE,
                            isFree := True,
                            next_c := next_c (heap s c)\<rparr>,
                       c := (heap s c)
                           \<lparr>size_c := ALIGN bytes, isFree := False,
                            next_c := c + ALIGN bytes + CHUNK_SIZE,
                            file_c := f, line_c := l\<rparr>)\<rparr>))
    \<and> (\<not> CHUNK_SIZE + ALIGNMENT \<le> size_c (heap s c) - ALIGN bytes \<longrightarrow>
           myAlloc ok bytes f l s =
             Some (c + CHUNK_SIZE,
                   s\<lparr>heap := (heap s)
                      (c := (heap s c)\<lparr>isFree := False, file_c := f, line_c := l\<rparr>)\<rparr>))"
  using myAlloc_found(1) [OF nz head found c]
    myAlloc_found(2) [OF nz head found c, of ok f l]
    myAlloc_found(3) [OF nz head found c, of ok f l]
  by blast

text \<open>
  In the example state, \<open>heapAlloc(5)\<close> splits the free chunk of size 64 at 4152 (excess 56)
  and leaves a free chunk of size 8 at 4208; a request of 60 bytes takes the chunk whole.
\<close>

theorem myAlloc_reuse_witness:
  "(5 :: 64 word) \<noteq> 0 \<and> (60 :: 64 word) \<noteq> 0 \<and> allChunks main_example \<noteq> 0
   \<and> findFreeChunk main_example (allChunks main_example) (ALIGN 5) = Some (4152, 4096)
   \<and> findFreeChunk main_example (allChunks main_example) (ALIGN 60) = Some (4152, 4096)
   \<and> (4152 :: 64 word) \<noteq> 0
   \<and> myAlloc True 5 ''heapAllocator.c'' 245 main_example =
       Some (4200,
             main_example\<lparr>heap := (heap main_example)
               (4208 := \<lparr>magic = 0x12345678, size_c = 8, isFree = True, next_c = 4264,
                         file_c = [], line_c = 0\<rparr>,
                4152 := \<lparr>magic = 0x12345678, size_c = 8, isFree = False, next_c = 4208,
                         file_c = ''heapAllocator.c'', line_c = 245\<rparr>)\<rparr>)
   \<and> myAlloc True 60 ''heapAllocator.c'' 245 main_example =
       Some (4200,
             main_example\<lparr>heap := (heap main_example)
               (4152 := \<lparr>magic = 0x12345678, size_c = 64, isFree = False, next_c = 4264,
                         file_c = ''heapAllocator.c'', line_c = 245\<rparr>)\<rparr>)"
proof -
  have a: "findFreeChunk main_example (allChunks main_example) (ALIGN 5) = Some (4152, 4096)"
    and b: "findFreeChunk main_example (allChunks main_example) (ALIGN 60) = Some (4152, 4096)"
    by (simp_all add: findFreeChunk_def findFreeLoop.simps main_example_def ALIGN_def
        ALIGNMENT_def)
  have h: "allChunks main_example \<noteq> 0" by (simp add: main_example_def)
  show ?thesis
    using myAlloc_reuse [OF _ h a, of True "''heapAllocator.c''" 245]
      myAlloc_reuse [OF _ h b, of True "''heapAllocator.c''" 245] a b
    by (simp add: main_example_def ALIGN_def ALIGNMENT_def CHUNK_SIZE_def MAGIC_NUMBER_def
        heap0_def chunk0_def)
qed

subsection \<open>Failure of the arena growth\<close>

text \<open>A request that returns the failure value leaves the state as it was.\<close>

lemma sbrk_failure_state:
  assumes "fst (sbrk ok incr s) = - 1"
  shows "snd (sbrk ok incr s) = s"
proof (cases "ok \<and> unat (brk s) + unat incr < 2 ^ 64")
  case False
  then show ?thesis by (auto simp: sbrk_def)
next
  case True
  with assms have b: "brk s = - 1" by (simp add: sbrk_def)
  have "unat (- 1 :: 64 word) = 18446744073709551615"
    by (simp add: unsigned_minus_1_eq_mask mask_eq_exp_minus_1)
  with True b have "unat incr = 0" by simp
  then have "incr = 0" by (simp add: unat_eq_0)
  with True show ?thesis by (simp add: sbrk_def)
qed

lemma myAlloc_growth_fails:
  assumes nz: "bytes \<noteq> 0"
    and ch: "chain (heap s) (allChunks s) cs"
    and miss: "\<forall>c \<in> set cs. \<not> fits (heap s) (ALIGN bytes) c"
    and fail: "fst (sbrk ok (ALIGN bytes + CHUNK_SIZE) s) = - 1"
  shows "myAlloc ok bytes f l s =
           Some (0, s\<lparr>mem_stats := (mem_stats s)\<lparr>sbrkCalls := sbrkCalls (mem_stats s) + 1\<rparr>\<rparr>)"
proof -
  define s0 where
    "s0 = s\<lparr>mem_stats := (mem_stats s)\<lparr>sbrkCalls := sbrkCalls (mem_stats s) + 1\<rparr>\<rparr>"
  have f0: "fst (sbrk ok (ALIGN bytes + CHUNK_SIZE) s0) = - 1"
    using fail by (auto simp: sbrk_def s0_def split: if_splits)
  then have s0': "snd (sbrk ok (ALIGN bytes + CHUNK_SIZE) s0) = s0"
    by (rule sbrk_failure_state)
  have w: "sbrkWithStats ok (ALIGN bytes + CHUNK_SIZE) s = (- 1, s0)"
    using f0 s0' by (simp add: sbrkWithStats_def s0_def [symmetric] prod_eq_iff)
  from miss have fn: "find (fits (heap s) (ALIGN bytes)) cs = None"
    by (simp add: find_None_iff)
  have "findFreeChunk s lastp (ALIGN bytes) =
          Some (0, last (lastp # takeWhile (\<lambda>c. \<not> fits (heap s) (ALIGN bytes) c) cs))"
    for lastp
    unfolding findFreeChunk_def using findFreeLoop_chain [OF ch, of lastp "ALIGN bytes"] fn
    by simp
  then show ?thesis
    using nz w by (simp add: myAlloc_def Let_def s0_def)
qed

lemma count_request_sbrkCalls [simp]: "sbrkCalls (count_request bytes st) = sbrkCalls st"
  by (simp add: count_request_def Let_def)

text \<open>
  C6. An allocation of a positive size on a chain in which no chunk fits, and whose
  request to \<open>sbrk\<close> returns the failure value, returns null. The state after it is the
  state before it except for the statistics: the request as counted before the lock, and
  the arena-growth counter one higher. The headers, the chain head and the break are
  unchanged. (\<open>myAlloc\<close> alone changes the arena-growth counter only.)
\<close>

theorem allocate_growth_failure:
  assumes nz: "bytes \<noteq> 0"
    and ch: "chain (heap s) (allChunks s) cs"
    and miss: "\<forall>c \<in> set cs. \<not> fits (heap s) (ALIGN bytes) c"
    and fail: "fst (sbrk ok (ALIGN bytes + CHUNK_SIZE) s) = - 1"
  shows "allocWithStats ok bytes f l s =
           Some (0, s\<lparr>mem_stats := (count_request bytes (mem_stats s))
                                     \<lparr>sbrkCalls := sbrkCalls (mem_stats s) + 1\<rparr>\<rparr>)
         \<and> myAlloc ok bytes f l s =
           Some (0, s\<lparr>mem_stats := (mem_stats s)\<lparr>sbrkCalls := sbrkCalls (mem_stats s) + 1\<rparr>\<rparr>)"
proof -
  define s' where "s' = s\<lparr>mem_stats := count_request bytes (mem_stats s)\<rparr>"
  have "fst (sbrk ok (ALIGN bytes + CHUNK_SIZE) s') = - 1"
    using fail by (auto simp: sbrk_def s'_def split: if_splits)
  moreover have "chain (heap s') (allChunks s') cs" using ch by (simp add: s'_def)
  moreover have "\<forall>c \<in> set cs. \<not> fits (heap s') (ALIGN bytes) c" using miss by (simp add: s'_def)
  ultimately have "myAlloc ok bytes f l s' =
      Some (0, s'\<lparr>mem_stats := (mem_stats s')\<lparr>sbrkCalls := sbrkCalls (mem_stats s') + 1\<rparr>\<rparr>)"
    using nz by (intro myAlloc_growth_fails)
  then show ?thesis
    using myAlloc_growth_fails [OF nz ch miss fail, of f l]
    by (simp add: allocWithStats_def s'_def)
qed

theorem allocate_growth_failure_witness:
  "(100 :: 64 word) \<noteq> 0
   \<and> chain (heap main_example) (allChunks main_example) [4096, 4152, 4264]
   \<and> \<not> fits (heap main_example) (ALIGN 100) 4096
   \<and> \<not> fits (heap main_example) (ALIGN 100) 4152
   \<and> \<not> fits (heap main_example) (ALIGN 100) 4264
   \<and> fst (sbrk False (ALIGN 100 + CHUNK_SIZE) main_example) = - 1
   \<and> allocWithStats False 100 ''heapAllocator.c'' 245 main_example =
       Some (0, main_example\<lparr>mem_stats :=
                  \<lparr>allocCalls = 4, totalAllocated = 170, peakMemory = 170, sbrkCalls = 4,
                   corruptedChunks = 0, unfreedChunks = 0\<rparr>\<rparr>)"
  using allocate_growth_failure
    [of 100 main_example "[4096, 4152, 4264]" False "''heapAllocator.c''" 245]
  by (simp add: main_example_def fits_def ALIGN_def ALIGNMENT_def sbrk_def count_request_def
      Let_def)

subsection \<open>Release and forward merging\<close>

lemma cascade_example_origin:
  "run [Allocate True 5 ''heapAllocator.c'' 1, Allocate True 5 ''heapAllocator.c'' 2, Allocate True 5 ''heapAllocator.c'' 3,
        Release 4256] (init 4096) =
     Some ([4144, 4200, 4256], cascade_example)"
  by (simp add: run_defs cascade_example_def fun_eq_iff)

lemma absorbed_dropWhile [simp]: "absorbed h (dropWhile (\<lambda>x. isFree (h x)) cs) = 0"
  by (induction cs) auto

lemma successor_after_dropWhile [simp]:
  "successor_after h (dropWhile (\<lambda>x. isFree (h x)) cs) = successor_after h cs"
  by (induction cs) auto

lemma absorbed_cong:
  "(\<And>x. x \<in> set cs \<Longrightarrow> h' x = h x) \<Longrightarrow> absorbed h' cs = absorbed h cs"
  by (induction cs) auto

lemma successor_after_cong:
  "(\<And>x. x \<in> set cs \<Longrightarrow> h' x = h x) \<Longrightarrow> successor_after h' cs = successor_after h cs"
  by (induction cs) auto

lemma dropWhile_free_cong:
  "(\<And>x. x \<in> set cs \<Longrightarrow> h' x = h x) \<Longrightarrow>
   dropWhile (\<lambda>x. isFree (h' x)) cs = dropWhile (\<lambda>x. isFree (h x)) cs"
  by (induction cs) auto

lemma absorbed_none: "cs = [] \<or> \<not> isFree (h (hd cs)) \<Longrightarrow> absorbed h cs = 0"
  by (cases cs) auto

lemma released_same [simp]:
  "released h c rest c =
     (h c)\<lparr>isFree := True, size_c := size_c (h c) + absorbed h rest,
            next_c := successor_after h rest\<rparr>"
  by (simp add: released_def)

lemma released_other [simp]: "x \<noteq> c \<Longrightarrow> released h c rest x = h x"
  by (simp add: released_def)

lemma chain_released_other:
  "c \<notin> set cs \<Longrightarrow> chain (released h c rest) p cs = chain h p cs"
  by (rule chain_cong) (metis released_other)

lemma chain_released_aux:
  "distinct (pre @ c # rest) \<Longrightarrow> chain h p (pre @ c # rest) \<Longrightarrow>
   chain (released h c rest) p (pre @ c # dropWhile (\<lambda>x. isFree (h x)) rest)"
proof (induction pre arbitrary: p)
  case Nil
  then have c: "p = c" "c \<noteq> 0" and rest: "chain h (next_c (h c)) rest" and nin: "c \<notin> set rest"
    by simp_all
  have "c \<notin> set (dropWhile (\<lambda>x. isFree (h x)) rest)"
    using nin by (auto dest: set_dropWhileD)
  then have "chain (released h c rest) (successor_after h rest) (dropWhile (\<lambda>x. isFree (h x)) rest)"
    using chain_dropWhile [OF rest] by (simp add: chain_released_other)
  then show ?case using c by simp
next
  case (Cons x pre)
  then have "x \<noteq> c" by auto
  with Cons show ?case by auto
qed

lemma chain_released:
  "chain h p (pre @ c # rest) \<Longrightarrow>
   chain (released h c rest) p (pre @ c # dropWhile (\<lambda>x. isFree (h x)) rest)"
  using chain_released_aux chain_distinct by blast

lemma chain_isFree_upd:
  "chain (h(c := (h c)\<lparr>isFree := v\<rparr>)) p cs = chain h p cs"
  by (rule chain_cong) simp

text \<open>
  C4 (as the code has it). Let \<open>a\<close> and \<open>b\<close> be neighbours in the chain, \<open>b\<close> occupied,
  and \<open>rest\<close> the chunks after \<open>b\<close>.
  Releasing \<open>b\<close> absorbs the run of free chunks at the front of \<open>rest\<close> into \<open>b\<close>; releasing
  \<open>a\<close> after that absorbs \<open>b\<close>: \<open>a\<close> is free, its size is the two sizes plus one header plus
  what \<open>b\<close> had absorbed (each free chunk of the run with its header), its successor is the
  chunk after the run, and \<open>b\<close> is no longer in the chain. When the chunk after \<open>b\<close> is
  absent or occupied, the size of \<open>a\<close> is the two sizes plus one header.
  Releasing \<open>a\<close> first, with \<open>b\<close> still occupied, only marks \<open>a\<close> free: sizes, successors
  and the chain stay as they were. (All sums are sums of \<open>size_t\<close>.)
\<close>

theorem release_merges_forward_only:
  assumes ch: "chain (heap s) (allChunks s) (pre @ a # b # rest)"
    and pa: "a + CHUNK_SIZE \<noteq> 0" and pb: "b + CHUNK_SIZE \<noteq> 0"
    and occ: "\<not> isFree (heap s b)"
  shows "(\<exists>s1 s2. heapFree (b + CHUNK_SIZE) s = Some s1 \<and> heapFree (a + CHUNK_SIZE) s1 = Some s2
            \<and> heap s1 = released (heap s) b rest
            \<and> heap s2 = (heap s1)
                 (a := (heap s a)
                    \<lparr>isFree := True,
                     size_c := size_c (heap s a) + size_c (heap s b) + CHUNK_SIZE
                               + absorbed (heap s) rest,
                     next_c := successor_after (heap s) rest\<rparr>)
            \<and> chain (heap s2) (allChunks s2)
                 (pre @ a # dropWhile (\<lambda>x. isFree (heap s x)) rest)
            \<and> (rest = [] \<or> \<not> isFree (heap s (hd rest)) \<longrightarrow>
                 size_c (heap s2 a) = size_c (heap s a) + size_c (heap s b) + CHUNK_SIZE))
       \<and> (\<exists>s1. heapFree (a + CHUNK_SIZE) s = Some s1
            \<and> heap s1 = (heap s)(a := (heap s a)\<lparr>isFree := True\<rparr>)
            \<and> chain (heap s1) (allChunks s1) (pre @ a # b # rest))"
proof (intro conjI)
  let ?h = "heap s"
  let ?kept = "dropWhile (\<lambda>x. isFree (?h x)) rest"
  have dist: "distinct (pre @ a # b # rest)" using ch by (rule chain_distinct)
  then have ab: "a \<noteq> b" and b_rest: "b \<notin> set rest" and a_rest: "a \<notin> set rest" by auto
  have b_kept: "b \<notin> set ?kept" and a_kept: "a \<notin> set ?kept"
    using b_rest a_rest by (auto dest: set_dropWhileD)
  \<comment> \<open>the later chunk first\<close>
  from ch have ch_b: "chain ?h (allChunks s) ((pre @ [a]) @ b # rest)" by simp
  define s1 where
    "s1 = (if magic (?h b) \<noteq> MAGIC_NUMBER
           then s\<lparr>mem_stats :=
                   (mem_stats s)\<lparr>corruptedChunks := corruptedChunks (mem_stats s) + 1\<rparr>\<rparr>
           else s)\<lparr>heap := released ?h b rest\<rparr>"
  have f1: "heapFree (b + CHUNK_SIZE) s = Some s1"
    unfolding s1_def using ch_b pb by (rule heapFree_chain)
  have h1: "heap s1 = released ?h b rest" and head1: "allChunks s1 = allChunks s"
    by (simp_all add: s1_def)
  have ch1: "chain (heap s1) (allChunks s1) (pre @ a # b # ?kept)"
    using chain_released [OF ch_b] by (simp add: h1 head1)
  define s2 where
    "s2 = (if magic (heap s1 a) \<noteq> MAGIC_NUMBER
           then s1\<lparr>mem_stats :=
                   (mem_stats s1)\<lparr>corruptedChunks := corruptedChunks (mem_stats s1) + 1\<rparr>\<rparr>
           else s1)\<lparr>heap := released (heap s1) a (b # ?kept)\<rparr>"
  have f2: "heapFree (a + CHUNK_SIZE) s1 = Some s2"
    unfolding s2_def using ch1 pa by (rule heapFree_chain)
  have same: "heap s1 x = ?h x" if "x \<in> set ?kept" for x
    using that b_kept by (metis h1 released_other)
  have abs_kept: "absorbed (heap s1) ?kept = 0"
    using absorbed_cong [of ?kept "heap s1" ?h] same by simp
  have succ_kept: "successor_after (heap s1) ?kept = successor_after ?h rest"
    using successor_after_cong [of ?kept "heap s1" ?h] same by simp
  have drop_kept: "dropWhile (\<lambda>x. isFree (heap s1 x)) ?kept = ?kept"
    using dropWhile_free_cong [of ?kept "heap s1" ?h] same by simp
  have h2: "heap s2 = (heap s1)
                 (a := (?h a)
                    \<lparr>isFree := True,
                     size_c := size_c (?h a) + size_c (?h b) + CHUNK_SIZE + absorbed ?h rest,
                     next_c := successor_after ?h rest\<rparr>)"
    using ab abs_kept succ_kept
    by (simp add: s2_def released_def [of "heap s1"] h1 fun_eq_iff add_ac)
  have ch2: "chain (heap s2) (allChunks s2) (pre @ a # ?kept)"
  proof -
    have "chain (released (heap s1) a (b # ?kept)) (allChunks s1)
            (pre @ a # dropWhile (\<lambda>x. isFree (heap s1 x)) (b # ?kept))"
      using ch1 by (rule chain_released)
    moreover have "isFree (heap s1 b)" by (simp add: h1)
    ultimately show ?thesis by (simp add: s2_def drop_kept)
  qed
  have sz: "size_c (heap s2 a) = size_c (?h a) + size_c (?h b) + CHUNK_SIZE"
    if "rest = [] \<or> \<not> isFree (?h (hd rest))"
    using absorbed_none [of rest ?h] that by (simp add: h2)
  show "\<exists>s1 s2. heapFree (b + CHUNK_SIZE) s = Some s1 \<and> heapFree (a + CHUNK_SIZE) s1 = Some s2
            \<and> heap s1 = released (heap s) b rest
            \<and> heap s2 = (heap s1)
                 (a := (heap s a)
                    \<lparr>isFree := True,
                     size_c := size_c (heap s a) + size_c (heap s b) + CHUNK_SIZE
                               + absorbed (heap s) rest,
                     next_c := successor_after (heap s) rest\<rparr>)
            \<and> chain (heap s2) (allChunks s2)
                 (pre @ a # dropWhile (\<lambda>x. isFree (heap s x)) rest)
            \<and> (rest = [] \<or> \<not> isFree (heap s (hd rest)) \<longrightarrow>
                 size_c (heap s2 a) = size_c (heap s a) + size_c (heap s b) + CHUNK_SIZE)"
    using f1 f2 h1 h2 ch2 sz by blast
  \<comment> \<open>the earlier chunk first\<close>
  define t1 where
    "t1 = (if magic (?h a) \<noteq> MAGIC_NUMBER
           then s\<lparr>mem_stats :=
                   (mem_stats s)\<lparr>corruptedChunks := corruptedChunks (mem_stats s) + 1\<rparr>\<rparr>
           else s)\<lparr>heap := released ?h a (b # rest)\<rparr>"
  have g1: "heapFree (a + CHUNK_SIZE) s = Some t1"
    unfolding t1_def using ch pa by (rule heapFree_chain)
  from ch have "chain ?h a (a # b # rest)" by (rule chain_suffix_from)
  then have nx: "next_c (?h a) = b" by simp
  have e: "(?h a)\<lparr>isFree := True, next_c := b\<rparr> = (?h a)\<lparr>isFree := True\<rparr>"
    by (simp add: nx [symmetric])
  have g2: "heap t1 = ?h(a := (?h a)\<lparr>isFree := True\<rparr>)"
    using occ by (simp add: t1_def released_def e)
  have g3: "chain (heap t1) (allChunks t1) (pre @ a # b # rest)"
    unfolding g2 using ch by (simp add: t1_def chain_isFree_upd)
  show "\<exists>s1. heapFree (a + CHUNK_SIZE) s = Some s1
            \<and> heap s1 = (heap s)(a := (heap s a)\<lparr>isFree := True\<rparr>)
            \<and> chain (heap s1) (allChunks s1) (pre @ a # b # rest)"
    using g1 g2 g3 by blast
qed

theorem release_merges_forward_only_witness:
  "chain (heap cascade_example) (allChunks cascade_example) ([] @ 4096 # 4152 # [4208])
   \<and> (4096 :: 64 word) + CHUNK_SIZE \<noteq> 0 \<and> (4152 :: 64 word) + CHUNK_SIZE \<noteq> 0
   \<and> \<not> isFree (heap cascade_example 4152)
   \<and> (\<exists>s1 s2. heapFree (4152 + CHUNK_SIZE) cascade_example = Some s1
          \<and> heapFree (4096 + CHUNK_SIZE) s1 = Some s2
          \<and> size_c (heap s2 4096) = 120 \<and> next_c (heap s2 4096) = 0 \<and> isFree (heap s2 4096)
          \<and> chain (heap s2) (allChunks s2) [4096])
   \<and> (\<exists>s1. heapFree (4096 + CHUNK_SIZE) cascade_example = Some s1
          \<and> size_c (heap s1 4096) = 8 \<and> next_c (heap s1 4096) = 4152
          \<and> chain (heap s1) (allChunks s1) [4096, 4152, 4208])"
proof -
  have a: "chain (heap cascade_example) (allChunks cascade_example) ([] @ 4096 # 4152 # [4208])"
    by (simp add: cascade_example_def)
  have b: "(4096 :: 64 word) + CHUNK_SIZE \<noteq> 0" "(4152 :: 64 word) + CHUNK_SIZE \<noteq> 0"
    by (simp_all add: CHUNK_SIZE_def)
  have c: "\<not> isFree (heap cascade_example 4152)" by (simp add: cascade_example_def)
  have v: "absorbed (heap cascade_example) [4208] = 56"
    "successor_after (heap cascade_example) [4208] = 0"
    "size_c (heap cascade_example 4096) = 8" "size_c (heap cascade_example 4152) = 8"
    "next_c (heap cascade_example 4096) = 4152"
    "isFree (heap cascade_example 4208)" "size_c (heap cascade_example 4208) = 8"
    by (simp_all add: cascade_example_def CHUNK_SIZE_def)
  note t = release_merges_forward_only [OF a b c]
  from t obtain s1 s2 where
    f: "heapFree (4152 + CHUNK_SIZE) cascade_example = Some s1"
       "heapFree (4096 + CHUNK_SIZE) s1 = Some s2"
    and h2: "heap s2 = (heap s1)
               (4096 := (heap cascade_example 4096)
                  \<lparr>isFree := True,
                   size_c := size_c (heap cascade_example 4096) + size_c (heap cascade_example 4152)
                             + CHUNK_SIZE + absorbed (heap cascade_example) [4208],
                   next_c := successor_after (heap cascade_example) [4208]\<rparr>)"
    and ch2: "chain (heap s2) (allChunks s2)
                ([] @ 4096 # dropWhile (\<lambda>x. isFree (heap cascade_example x)) [4208])"
    by blast
  from t obtain t1 where
    g: "heapFree (4096 + CHUNK_SIZE) cascade_example = Some t1"
    and k1: "heap t1 = (heap cascade_example)(4096 := (heap cascade_example 4096)\<lparr>isFree := True\<rparr>)"
    and ch1: "chain (heap t1) (allChunks t1) ([] @ 4096 # 4152 # [4208])"
    by blast
  have "size_c (heap s2 4096) = 120 \<and> next_c (heap s2 4096) = 0 \<and> isFree (heap s2 4096)
     \<and> chain (heap s2) (allChunks s2) [4096]"
    using ch2 by (simp add: h2 v CHUNK_SIZE_def)
  with f have one: "\<exists>s1 s2. heapFree (4152 + CHUNK_SIZE) cascade_example = Some s1
          \<and> heapFree (4096 + CHUNK_SIZE) s1 = Some s2
          \<and> size_c (heap s2 4096) = 120 \<and> next_c (heap s2 4096) = 0 \<and> isFree (heap s2 4096)
          \<and> chain (heap s2) (allChunks s2) [4096]"
    by blast
  have "size_c (heap t1 4096) = 8 \<and> next_c (heap t1 4096) = 4152
     \<and> chain (heap t1) (allChunks t1) [4096, 4152, 4208]"
    using ch1 by (simp add: k1 v)
  with g have two: "\<exists>s1. heapFree (4096 + CHUNK_SIZE) cascade_example = Some s1
          \<and> size_c (heap s1 4096) = 8 \<and> next_c (heap s1 4096) = 4152
          \<and> chain (heap s1) (allChunks s1) [4096, 4152, 4208]"
    by blast
  show ?thesis using a b c one two by blast
qed

text \<open>
  The claim as stated fails when the chunk after the later chunk is free: with three
  neighbours of size 8, the third free, releasing the second and then the first leaves
  the first with size 120, not 8 + 8 + 48 = 64.
\<close>

theorem release_later_then_earlier_counterexample:
  "next_c (heap cascade_example 4096) = 4152
   \<and> \<not> isFree (heap cascade_example 4096) \<and> \<not> isFree (heap cascade_example 4152)
   \<and> map_option (size_c \<circ> chunk_at 4096)
        (Option.bind (heapFree 4200 cascade_example) (heapFree 4144)) = Some 120
   \<and> size_c (heap cascade_example 4096) + size_c (heap cascade_example 4152) + CHUNK_SIZE = 64"
  by (simp add: run_defs cascade_example_def chunk_at_def)

subsection \<open>Release of a chunk that is already free\<close>



subsection \<open>Rounding up to the alignment\<close>

lemma cleared_low_bits_eq: "(y :: 64 word) AND NOT 7 = push_bit 3 (drop_bit 3 y)"
proof (rule bit_eqI)
  fix n
  have "bit (7 :: 64 word) n \<longleftrightarrow> n < 3"
    using bit_mask_iff [of 3 n, where 'a = "64 word"]
    by (auto simp: mask_eq_exp_minus_1 dest: bit_imp_le_length)
  then show "bit (y AND NOT 7) n = bit (push_bit 3 (drop_bit 3 y)) n"
    by (auto simp: bit_simps dest: bit_imp_le_length)
qed

lemma unat_cleared_low_bits: "unat ((y :: 64 word) AND NOT 7) = unat y div 8 * 8"
proof -
  have d: "unat (drop_bit 3 y) = unat y div 8"
    by (simp add: drop_bit_eq_div unat_div)
  have "unat y div 8 * 8 \<le> unat y" by simp
  moreover have "unat y < 2 ^ 64" using unsigned_less [of y, where 'a = nat] by simp
  ultimately have "unat (drop_bit 3 y) * unat (8 :: 64 word) < 2 ^ LENGTH(64)"
    by (simp add: d)
  then have "unat (drop_bit 3 y * 8) = unat (drop_bit 3 y) * unat (8 :: 64 word)"
    by (rule unat_mult_lem [THEN iffD1])
  then have "unat (push_bit 3 (drop_bit 3 y)) = unat y div 8 * 8"
    by (simp add: push_bit_eq_mult d)
  then show ?thesis by (simp only: cleared_low_bits_eq)
qed

lemma unat_ALIGN:
  assumes "unat x \<le> 2 ^ 64 - 8"
  shows "unat (ALIGN x) = (unat x + 7) div 8 * 8"
proof -
  have "unat x + 7 < 2 ^ 64" using assms by simp
  then have "unat (x + 7) = unat x + 7" by (simp add: unat_add_lem [THEN iffD1])
  then show ?thesis
    using unat_cleared_low_bits [of "x + 7"] by (simp add: ALIGN_def ALIGNMENT_def)
qed

lemma ALIGN_mono:
  assumes "m \<le> n" "unat n \<le> 2 ^ 64 - 8"
  shows "ALIGN m \<le> ALIGN n"
proof -
  have mn: "unat m \<le> unat n" using assms(1) by (simp add: word_le_nat_alt)
  then have "unat m \<le> 2 ^ 64 - 8" using assms(2) by simp
  then have "unat (ALIGN m) = (unat m + 7) div 8 * 8" by (rule unat_ALIGN)
  moreover have "unat (ALIGN n) = (unat n + 7) div 8 * 8" using assms(2) by (rule unat_ALIGN)
  moreover have "(unat m + 7) div 8 * 8 \<le> (unat n + 7) div 8 * 8"
    using mn by (simp add: div_le_mono)
  ultimately show ?thesis by (simp add: word_le_nat_alt)
qed

lemma ALIGN_wraps: "ALIGN (- 1) = 0" "ALIGN 1 = 8"
  by (simp_all add: ALIGN_def ALIGNMENT_def)

subsection \<open>Sentinel and alignment in every reachable state\<close>

lemma dvd8_add: "8 dvd unat (a :: 64 word) \<Longrightarrow> 8 dvd unat b \<Longrightarrow> 8 dvd unat (a + b)"
proof -
  assume a: "8 dvd unat a" and b: "8 dvd unat b"
  have "(8 :: nat) dvd 2 ^ 64" by simp
  moreover have "8 dvd unat a + unat b" using a b by simp
  ultimately have "8 dvd (unat a + unat b) mod 2 ^ 64" by (simp add: dvd_mod)
  then show ?thesis by (simp add: unat_word_ariths)
qed

lemma dvd8_diff: "8 dvd unat (a :: 64 word) \<Longrightarrow> 8 dvd unat b \<Longrightarrow> 8 dvd unat (a - b)"
proof -
  assume a: "8 dvd unat a" and b: "8 dvd unat b"
  have d: "(8 :: nat) dvd 2 ^ 64" by simp
  have "unat a = (unat (a - b) + unat b) mod 2 ^ 64"
    using unat_word_ariths(1) [of "a - b" b] by simp
  then have "8 dvd (unat (a - b) + unat b) mod 2 ^ 64" using a by simp
  with d have "8 dvd unat (a - b) + unat b" by (simp add: dvd_mod_iff)
  with b show ?thesis by (simp add: dvd_add_left_iff)
qed

lemma dvd8_ALIGN: "8 dvd unat (ALIGN x)"
  using unat_cleared_low_bits [of "x + 7"] by (simp add: ALIGN_def ALIGNMENT_def)

lemma dvd8_CHUNK_SIZE: "8 dvd unat CHUNK_SIZE"
  by (simp add: CHUNK_SIZE_def)

lemma in_chain_cov: "in_chain h p x \<Longrightarrow> cov h p R \<Longrightarrow> x \<in> R"
  by (induction rule: in_chain.induct) (auto simp: cov_def)

lemma cov_isFree: "cov h p R \<Longrightarrow> cov (set_isFree a v h) p R"
  by (auto simp: cov_def set_isFree_def sound_header_def)

lemma cov_origin: "cov h p R \<Longrightarrow> cov (set_line a l (set_file a f h)) p R"
  by (auto simp: cov_def set_line_def set_file_def sound_header_def)

lemma cov_split:
  assumes "cov h p R" "c \<in> R" "8 dvd unat sz"
  shows "cov (splitChunk c sz h) p (insert (c + sz + CHUNK_SIZE) R)"
proof -
  have "8 dvd unat (size_c (h c) - sz - CHUNK_SIZE)"
    using assms by (auto simp: cov_def sound_header_def intro!: dvd8_diff dvd8_CHUNK_SIZE)
  then show ?thesis
    using assms
    by (auto simp: cov_def splitChunk_def field_setters Let_def sound_header_def)
qed

lemma cov_fresh_chunk:
  assumes "cov h p R" "8 dvd unat sz"
  shows "cov (set_isFree q False (set_next q 0 (set_magic q MAGIC_NUMBER (set_size q sz h))))
           p (insert q R)"
  using assms by (auto simp: cov_def field_setters sound_header_def)

lemma cov_link: "cov h p R \<Longrightarrow> q \<in> R \<Longrightarrow> cov (set_next a q h) p R"
  by (auto simp: cov_def set_next_def sound_header_def)

lemma cov_new_head: "cov h p R \<Longrightarrow> q \<in> R \<Longrightarrow> cov h q R"
  by (auto simp: cov_def)

lemma cov_merge_step:
  assumes "cov h p R" "next_c (h c) \<noteq> 0"
  shows "cov (set_next c
               (next_c (set_size c (size_c (h c) + (CHUNK_SIZE + size_c (h (next_c (h c))))) h
                  (next_c (set_size c (size_c (h c) + (CHUNK_SIZE + size_c (h (next_c (h c))))) h
                    c))))
               (set_size c (size_c (h c) + (CHUNK_SIZE + size_c (h (next_c (h c))))) h))
           p R"
proof (cases "c \<in> R")
  case False
  then show ?thesis using assms by (auto simp: cov_def field_setters sound_header_def)
next
  case True
  with assms have n: "next_c (h c) \<in> R" by (auto simp: cov_def)
  with assms True have "8 dvd unat (size_c (h c) + (CHUNK_SIZE + size_c (h (next_c (h c)))))"
    by (auto simp: cov_def sound_header_def intro!: dvd8_add dvd8_CHUNK_SIZE)
  then show ?thesis
    using assms True n by (auto simp: cov_def field_setters sound_header_def)
qed

lemma findFreeLoop_cov_aux:
  assumes "findFreeLoop h cur lastp sz = Some r"
  shows "cov h p R \<longrightarrow> (cur = 0 \<or> cur \<in> R) \<longrightarrow> fst r = 0 \<or> fst r \<in> R"
proof (rule findFreeLoop.raw_induct
        [where P = "\<lambda>h cur lastp sz r.
                      cov h p R \<longrightarrow> (cur = 0 \<or> cur \<in> R) \<longrightarrow> fst r = 0 \<or> fst r \<in> R",
          OF _ assms])
  fix search h cur lastp sz r
  assume IH: "\<And>h cur lastp sz r. search h cur lastp sz = Some r \<Longrightarrow>
                cov h p R \<longrightarrow> (cur = 0 \<or> cur \<in> R) \<longrightarrow> fst r = 0 \<or> fst r \<in> R"
    and eq: "(if cur \<noteq> 0 \<and> \<not> (isFree (h cur) \<and> sz \<le> size_c (h cur))
              then search h (next_c (h cur)) cur sz
              else Some (cur, lastp)) = Some r"
  show "cov h p R \<longrightarrow> (cur = 0 \<or> cur \<in> R) \<longrightarrow> fst r = 0 \<or> fst r \<in> R"
  proof (intro impI)
    assume c: "cov h p R" and cur: "cur = 0 \<or> cur \<in> R"
    show "fst r = 0 \<or> fst r \<in> R"
    proof (cases "cur \<noteq> 0 \<and> \<not> (isFree (h cur) \<and> sz \<le> size_c (h cur))")
      case False
      with eq cur show ?thesis by auto
    next
      case True
      with eq have "search h (next_c (h cur)) cur sz = Some r" by simp
      moreover from True cur c have "next_c (h cur) = 0 \<or> next_c (h cur) \<in> R"
        by (auto simp: cov_def)
      ultimately show ?thesis using IH c by blast
    qed
  qed
qed

lemma heapMergeChunks_cov_aux:
  assumes "heapMergeChunks c h = Some h'"
  shows "cov h p R \<longrightarrow> cov h' p R"
proof (rule heapMergeChunks.raw_induct
        [where P = "\<lambda>c h h'. cov h p R \<longrightarrow> cov h' p R", OF _ assms])
  fix merge c h h'
  assume IH: "\<And>c h h'. merge c h = Some h' \<Longrightarrow> cov h p R \<longrightarrow> cov h' p R"
    and eq: "(if next_c (h c) \<noteq> 0 \<and> isFree (h (next_c (h c)))
              then let h1 = set_size c
                     (size_c (h c) + (CHUNK_SIZE + size_c (h (next_c (h c))))) h;
                       h2 = set_next c (next_c (h1 (next_c (h1 c)))) h1
                   in merge c h2
              else Some h) = Some h'"
  show "cov h p R \<longrightarrow> cov h' p R"
  proof (cases "next_c (h c) \<noteq> 0 \<and> isFree (h (next_c (h c)))")
    case False
    with eq show ?thesis by simp
  next
    case True
    show ?thesis
    proof
      assume c: "cov h p R"
      from True eq have "merge c (set_next c
               (next_c (set_size c (size_c (h c) + (CHUNK_SIZE + size_c (h (next_c (h c))))) h
                  (next_c (set_size c (size_c (h c) + (CHUNK_SIZE + size_c (h (next_c (h c))))) h
                    c))))
               (set_size c (size_c (h c) + (CHUNK_SIZE + size_c (h (next_c (h c))))) h)) = Some h'"
        by (simp add: Let_def)
      from IH [OF this] cov_merge_step [OF c] True show "cov h' p R" by blast
    qed
  qed
qed

lemma heapFree_cov:
  assumes c: "cov (heap s) (allChunks s) R" and f: "heapFree ptr s = Some s'"
  shows "cov (heap s') (allChunks s') R"
proof (cases "ptr = 0")
  case True
  with f c show ?thesis by (simp add: heapFree_def)
next
  case False
  define chunk where "chunk = ptr - CHUNK_SIZE"
  define h2 where "h2 = set_isFree chunk True (heap s)"
  have c2: "cov h2 (allChunks s) R" unfolding h2_def using c by (rule cov_isFree)
  show ?thesis
  proof (cases "next_c (h2 chunk) \<noteq> 0")
    case False
    with f \<open>ptr \<noteq> 0\<close> have "heap s' = h2 \<and> allChunks s' = allChunks s"
      by (auto simp: heapFree_def Let_def chunk_def h2_def split: if_splits)
    with c2 show ?thesis by simp
  next
    case True
    with f \<open>ptr \<noteq> 0\<close> obtain h' where m: "heapMergeChunks chunk h2 = Some h'"
      and s': "heap s' = h'" "allChunks s' = allChunks s"
      by (auto simp: heapFree_def Let_def chunk_def h2_def split: if_splits)
    from heapMergeChunks_cov_aux [OF m] c2 have "cov h' (allChunks s) R" by blast
    with s' show ?thesis by simp
  qed
qed

lemma myAlloc_cov:
  assumes c: "cov (heap s) (allChunks s) R" and a: "myAlloc ok bytes f l s = Some (q, s')"
  shows "\<exists>R'. cov (heap s') (allChunks s') R'"
proof (cases "bytes = 0")
  case True
  with a c show ?thesis by (auto simp: myAlloc_def)
next
  case nz: False
  define sz where "sz = ALIGN bytes"
  have al: "8 dvd unat sz" unfolding sz_def by (rule dvd8_ALIGN)
  define r where
    "r = (if allChunks s \<noteq> 0 then findFreeChunk s (allChunks s) sz else Some (0, 0))"
  from a nz obtain chunk lastp where r: "r = Some (chunk, lastp)"
    unfolding myAlloc_def Let_def r_def sz_def by (auto split: option.splits)
  show ?thesis
  proof (cases "chunk = 0")
    case False
    then have head: "allChunks s \<noteq> 0"
      and ff: "findFreeLoop (heap s) (allChunks s) (allChunks s) sz = Some (chunk, lastp)"
      using r by (auto simp: r_def findFreeChunk_def split: if_splits)
    from findFreeLoop_cov_aux [OF ff, of "allChunks s" R] c False
    have inR: "chunk \<in> R" by (auto simp: cov_def)
    define h1 where
      "h1 = (if CHUNK_SIZE + ALIGNMENT \<le> size_c (heap s chunk) - sz
             then splitChunk chunk sz (heap s) else heap s)"
    have "\<exists>R'. cov h1 (allChunks s) R'"
      unfolding h1_def using cov_split [OF c inR al] c by auto
    then obtain R' where "cov h1 (allChunks s) R'" ..
    then have "cov (set_line chunk l (set_file chunk f (set_isFree chunk False h1)))
                 (allChunks s) R'"
      by (intro cov_origin cov_isFree)
    moreover have "heap s' = set_line chunk l (set_file chunk f (set_isFree chunk False h1))"
      and "allChunks s' = allChunks s"
      using a nz r False
      unfolding myAlloc_def Let_def r_def sz_def h1_def stamp_origin_def by auto
    ultimately show ?thesis by auto
  next
    case True
    obtain p s1 where w: "sbrkWithStats ok (sz + CHUNK_SIZE) s = (p, s1)" by (cases "sbrkWithStats ok (sz + CHUNK_SIZE) s")
    then have s1: "heap s1 = heap s" "allChunks s1 = allChunks s"
      by (auto simp: sbrkWithStats_def sbrk_def split: if_splits)
    show ?thesis
    proof (cases "p = - 1")
      case True
      with a nz r \<open>chunk = 0\<close> w have "s' = s1"
        unfolding myAlloc_def Let_def r_def sz_def by auto
      with s1 c show ?thesis by auto
    next
      case False
      define h4 where
        "h4 = set_isFree p False (set_next p 0 (set_magic p MAGIC_NUMBER (set_size p sz (heap s))))"
      have c4: "cov h4 (allChunks s) (insert p R)"
        unfolding h4_def using c al by (rule cov_fresh_chunk)
      define h5 where "h5 = (if lastp \<noteq> 0 then set_next lastp p h4 else h4)"
      define top where "top = (if lastp \<noteq> 0 then allChunks s else p)"
      have c5: "cov h5 top (insert p R)"
        using c4 by (auto simp: h5_def top_def intro: cov_link cov_new_head)
      have "heap s' = set_line p l (set_file p f h5)" and "allChunks s' = top"
        using a nz r \<open>chunk = 0\<close> w False s1
        unfolding myAlloc_def Let_def r_def sz_def h4_def h5_def top_def stamp_origin_def
        by auto
      with cov_origin [OF c5] show ?thesis by auto
    qed
  qed
qed

lemma run_cov:
  "run calls s = Some (ps, s') \<Longrightarrow> cov (heap s) (allChunks s) R \<Longrightarrow>
   \<exists>R'. cov (heap s') (allChunks s') R'"
proof (induction calls arbitrary: s ps R)
  case Nil
  then show ?case by auto
next
  case (Cons c calls)
  show ?case
  proof (cases c)
    case (Allocate ok bytes f l)
    with Cons.prems obtain p s1 ps1 where
      a: "allocWithStats ok bytes f l s = Some (p, s1)" and r: "run calls s1 = Some (ps1, s')"
      by (auto split: option.splits)
    from a have "myAlloc ok bytes f l (s\<lparr>mem_stats := count_request bytes (mem_stats s)\<rparr>)
                  = Some (p, s1)"
      by (simp add: allocWithStats_def)
    from myAlloc_cov [OF _ this, of R] Cons.prems(2)
    obtain R1 where "cov (heap s1) (allChunks s1) R1" by auto
    from Cons.IH [OF r this] show ?thesis .
  next
    case (Release ptr)
    with Cons.prems obtain s1 where
      f: "heapFree ptr s = Some s1" and r: "run calls s1 = Some (ps, s')"
      by (auto split: option.splits)
    from heapFree_cov [OF Cons.prems(2) f] have "cov (heap s1) (allChunks s1) R" .
    from Cons.IH [OF r this] show ?thesis .
  qed
qed

lemma cov_start: "allChunks s = 0 \<Longrightarrow> cov (heap s) (allChunks s) {}"
  by (simp add: cov_def)





subsection \<open>The peak statistic\<close>

lemma count_request_total [simp]:
  "totalAllocated (count_request n st) = totalAllocated st + n"
  by (simp add: count_request_def Let_def)

lemma count_request_peak [simp]:
  "peakMemory (count_request n st) = max (peakMemory st) (totalAllocated st + n)"
  by (auto simp: count_request_def Let_def max_def)

lemma myAlloc_totals:
  assumes "myAlloc ok bytes f l s = Some (p, s')"
  shows "totalAllocated (mem_stats s') = totalAllocated (mem_stats s)
       \<and> peakMemory (mem_stats s') = peakMemory (mem_stats s)"
  using assms
  by (auto simp: myAlloc_def Let_def stamp_origin_def sbrkWithStats_def sbrk_def
      split: if_splits option.splits prod.splits)

lemma heapFree_totals:
  assumes "heapFree ptr s = Some s'"
  shows "totalAllocated (mem_stats s') = totalAllocated (mem_stats s)
       \<and> peakMemory (mem_stats s') = peakMemory (mem_stats s)"
  using assms by (auto simp: heapFree_def Let_def split: if_splits)

lemma allocWithStats_totals:
  assumes "allocWithStats ok n f l s = Some (p, s')"
  shows "totalAllocated (mem_stats s') = totalAllocated (mem_stats s) + n
       \<and> peakMemory (mem_stats s') =
           max (peakMemory (mem_stats s)) (totalAllocated (mem_stats s) + n)"
  using myAlloc_totals [of ok n f l "s\<lparr>mem_stats := count_request n (mem_stats s)\<rparr>" p s'] assms
  by (simp add: allocWithStats_def)

lemma run_totals:
  "run calls s = Some (ps, s') \<Longrightarrow>
   totalAllocated (mem_stats s') = totalAllocated (mem_stats s) + sum_list (map requested calls)
   \<and> peakMemory (mem_stats s') =
       Max (set (peakMemory (mem_stats s) # running_totals (totalAllocated (mem_stats s)) calls))"
proof (induction calls arbitrary: s ps)
  case Nil
  then show ?case by simp
next
  case (Cons c calls)
  show ?case
  proof (cases c)
    case (Allocate ok n f l)
    with Cons.prems obtain p s1 ps1 where
      a: "allocWithStats ok n f l s = Some (p, s1)" and r: "run calls s1 = Some (ps1, s')"
      by (auto split: option.splits)
    note t = allocWithStats_totals [OF a]
    note ih = Cons.IH [OF r]
    let ?T = "running_totals (totalAllocated (mem_stats s) + n) calls"
    have "Max (set (max (peakMemory (mem_stats s)) (totalAllocated (mem_stats s) + n) # ?T))
        = Max (set (peakMemory (mem_stats s) # (totalAllocated (mem_stats s) + n) # ?T))"
      by (cases "?T = []") (simp_all add: max.assoc)
    with t ih show ?thesis using Allocate by (simp add: add.assoc)
  next
    case (Release ptr)
    with Cons.prems obtain s1 where
      f: "heapFree ptr s = Some s1" and r: "run calls s1 = Some (ps, s')"
      by (auto split: option.splits)
    from heapFree_totals [OF f] Cons.IH [OF r] show ?thesis using Release by simp
  qed
qed

lemma run_no_wrap:
  "run calls s = Some (ps, s') \<Longrightarrow> peakMemory (mem_stats s) = totalAllocated (mem_stats s) \<Longrightarrow>
   unat (totalAllocated (mem_stats s)) + sum_list (map (\<lambda>c. unat (requested c)) calls) < 2 ^ 64 \<Longrightarrow>
   peakMemory (mem_stats s') = totalAllocated (mem_stats s')"
proof (induction calls arbitrary: s ps)
  case Nil
  then show ?case by simp
next
  case (Cons c calls)
  show ?case
  proof (cases c)
    case (Allocate ok n f l)
    with Cons.prems obtain p s1 ps1 where
      a: "allocWithStats ok n f l s = Some (p, s1)" and r: "run calls s1 = Some (ps1, s')"
      by (auto split: option.splits)
    note t = allocWithStats_totals [OF a]
    let ?t = "totalAllocated (mem_stats s)"
    from Cons.prems(3) Allocate have small: "unat ?t + unat n < 2 ^ 64" by simp
    then have u: "unat (?t + n) = unat ?t + unat n" by (simp add: unat_add_lem [THEN iffD1])
    then have "?t \<le> ?t + n" by (simp add: word_le_nat_alt)
    with t Cons.prems(2) have eq: "peakMemory (mem_stats s1) = totalAllocated (mem_stats s1)"
      by (simp add: max_def)
    have "unat (totalAllocated (mem_stats s1)) + sum_list (map (\<lambda>c. unat (requested c)) calls) < 2 ^ 64"
      using Cons.prems(3) Allocate t u by simp
    from Cons.IH [OF r eq this] show ?thesis .
  next
    case (Release ptr)
    with Cons.prems obtain s1 where
      f: "heapFree ptr s = Some s1" and r: "run calls s1 = Some (ps, s')"
      by (auto split: option.splits)
    from heapFree_totals [OF f] Cons.prems Release
    show ?thesis by (intro Cons.IH [OF r]) simp_all
  qed
qed




subsection \<open>The layout of a well-formed state\<close>

lemma bounds_Nil [simp]: "bounds h [] = []"
  by (simp add: bounds_def)

lemma bounds_Cons [simp]: "bounds h (c # cs) = unat c # chunk_end h c # bounds h cs"
  by (simp add: bounds_def)

lemma bounds_append [simp]: "bounds h (xs @ ys) = bounds h xs @ bounds h ys"
  by (simp add: bounds_def)

lemma bounds_cong:
  "(\<And>x. x \<in> set cs \<Longrightarrow> size_c (h' x) = size_c (h x)) \<Longrightarrow> bounds h' cs = bounds h cs"
  by (induction cs) (auto simp: chunk_end_def)

lemma in_bounds: "x \<in> set cs \<Longrightarrow> unat x \<in> set (bounds h cs) \<and> chunk_end h x \<in> set (bounds h cs)"
  by (induction cs) auto

lemma chunk_end_beyond: "unat c + 48 \<le> chunk_end h c"
  by (simp add: chunk_end_def CHUNK_SIZE_def)

lemma layout_before:
  assumes "sorted (bounds h (pre @ c # post) @ [lim])" "x \<in> set pre"
  shows "chunk_end h x \<le> unat c"
  using assms in_bounds [of x pre h] by (auto simp: sorted_append)

lemma layout_after:
  assumes "sorted (bounds h (pre @ c # post) @ [lim])" "x \<in> set post"
  shows "chunk_end h c \<le> unat x"
  using assms in_bounds [of x post h] by (auto simp: sorted_append)

lemma layout_top:
  assumes "sorted (bounds h (pre @ c # post) @ [lim])"
  shows "chunk_end h c \<le> lim"
  using assms by (auto simp: sorted_append)

lemma layout_all_below:
  assumes "sorted (bounds h cs @ [lim])" "x \<in> set cs"
  shows "chunk_end h x \<le> lim"
  using assms in_bounds [of x cs h] by (auto simp: sorted_append)

text \<open>Word sums that stay below the end of the address space.\<close>

lemma unat_add_small:
  "unat (a :: 64 word) + unat b < 2 ^ 64 \<Longrightarrow> unat (a + b) = unat a + unat b"
  by (simp add: unat_add_lem [THEN iffD1])

lemma absorbed_below_top:
  "sorted (lo # bounds h rest @ [lim]) \<Longrightarrow> lim < 2 ^ 64 \<Longrightarrow> lo + unat (absorbed h rest) \<le> lim"
proof (induction rest arbitrary: lo)
  case Nil
  then show ?case by simp
next
  case (Cons x xs)
  show ?case
  proof (cases "isFree (h x)")
    case False
    with Cons.prems show ?thesis by simp
  next
    case True
    from Cons.prems have "sorted (chunk_end h x # bounds h xs @ [lim])" by simp
    from Cons.IH [OF this Cons.prems(2)]
    have ih: "chunk_end h x + unat (absorbed h xs) \<le> lim" .
    then have small: "unat x + 48 + unat (size_c (h x)) + unat (absorbed h xs) < 2 ^ 64"
      using Cons.prems(2) by (simp add: chunk_end_def CHUNK_SIZE_def)
    have "unat (CHUNK_SIZE + size_c (h x)) = 48 + unat (size_c (h x))"
      using small unat_add_small [of CHUNK_SIZE "size_c (h x)"] by (simp add: CHUNK_SIZE_def)
    moreover from this have
      "unat (CHUNK_SIZE + size_c (h x) + absorbed h xs)
         = 48 + unat (size_c (h x)) + unat (absorbed h xs)"
      using small unat_add_small [of "CHUNK_SIZE + size_c (h x)" "absorbed h xs"] by simp
    moreover have "lo \<le> unat x" using Cons.prems(1) by simp
    ultimately show ?thesis using ih True by (simp add: chunk_end_def CHUNK_SIZE_def)
  qed
qed

lemma release_keeps_capacity:
  assumes "sorted (bounds h (pre @ c # rest) @ [lim])" "lim < 2 ^ 64"
  shows "size_c (h c) \<le> size_c (h c) + absorbed h rest"
proof -
  from assms(1) have "sorted (chunk_end h c # bounds h rest @ [lim])"
    by (simp add: sorted_append)
  from absorbed_below_top [OF this assms(2)]
  have "unat (size_c (h c)) + unat (absorbed h rest) < 2 ^ 64"
    using assms(2) by (simp add: chunk_end_def)
  then have "unat (size_c (h c) + absorbed h rest) = unat (size_c (h c)) + unat (absorbed h rest)"
    by (rule unat_add_small)
  then show ?thesis by (simp add: word_le_nat_alt)
qed

lemma split_arith:
  assumes small: "unat c + 48 + unat (size_c ch) < 2 ^ 64"
    and le: "sz \<le> size_c ch" and big: "CHUNK_SIZE + ALIGNMENT \<le> size_c ch - sz"
  shows "unat (c + sz + CHUNK_SIZE) = unat c + unat sz + 48"
    and "unat (size_c ch - sz - CHUNK_SIZE) = unat (size_c ch) - unat sz - 48"
    and "unat sz + 56 \<le> unat (size_c ch)"
proof -
  have d: "unat (size_c ch - sz) = unat (size_c ch) - unat sz"
    using le by (simp add: unat_sub)
  have b: "56 \<le> unat (size_c ch - sz)"
    using big by (simp add: word_le_nat_alt CHUNK_SIZE_def ALIGNMENT_def)
  have l: "unat sz \<le> unat (size_c ch)" using le by (simp add: word_le_nat_alt)
  show k: "unat sz + 56 \<le> unat (size_c ch)" using d b l by simp
  have "unat (c + sz) = unat c + unat sz"
    using small k by (intro unat_add_small) simp
  moreover from this have "unat (c + sz + 48) = unat (c + sz) + unat (48 :: 64 word)"
    using small k by (intro unat_add_small) simp
  ultimately show "unat (c + sz + CHUNK_SIZE) = unat c + unat sz + 48"
    by (simp add: CHUNK_SIZE_def)
  have "(48 :: 64 word) \<le> size_c ch - sz"
    using b by (simp add: word_le_nat_alt)
  then have "unat (size_c ch - sz - 48) = unat (size_c ch - sz) - unat (48 :: 64 word)"
    by (simp add: unat_sub)
  then show "unat (size_c ch - sz - CHUNK_SIZE) = unat (size_c ch) - unat sz - 48"
    using d by (simp add: CHUNK_SIZE_def)
qed

subsection \<open>The chain after an allocation\<close>

lemma find_append:
  "find P (xs @ ys) = (case find P xs of Some x \<Rightarrow> Some x | None \<Rightarrow> find P ys)"
  by (induction xs) auto

lemma find_split:
  "find P xs = Some c \<Longrightarrow>
   \<exists>post. xs = takeWhile (\<lambda>x. \<not> P x) xs @ c # post \<and> P c"
  by (induction xs) (auto split: if_splits)

lemma find_cong_set:
  "(\<And>x. x \<in> set xs \<Longrightarrow> P x = Q x) \<Longrightarrow> find P xs = find Q xs"
  by (induction xs) auto

lemma takeWhile_neq_prefix:
  "c \<notin> set pre \<Longrightarrow> takeWhile (\<lambda>x. x \<noteq> c) (pre @ c # post) = pre"
  by (induction pre) auto

lemma takeWhile_neq_all: "c \<notin> set cs \<Longrightarrow> takeWhile (\<lambda>x. x \<noteq> c) cs = cs"
  by (induction cs) auto

lemma chain_head_nonzero: "chain h p cs \<Longrightarrow> cs \<noteq> [] \<Longrightarrow> p \<noteq> 0"
  by (cases cs) auto

lemma chain_empty_iff: "chain h p cs \<Longrightarrow> (cs = []) = (p = 0)"
  by (cases cs) auto

text \<open>The chain after a split of \<open>c\<close>, and after a new chunk was appended.\<close>

lemma chain_insert_after:
  assumes "chain h p (pre @ c # post)" and "n \<notin> set (pre @ c # post)" and "n \<noteq> 0"
    and "next_c (h' c) = n" and "next_c (h' n) = next_c (h c)"
    and "\<And>x. x \<noteq> c \<Longrightarrow> x \<noteq> n \<Longrightarrow> next_c (h' x) = next_c (h x)"
  shows "chain h' p (pre @ c # n # post)"
proof -
  from assms(1) have "distinct (pre @ c # post)" by (rule chain_distinct)
  with assms(1,2) show ?thesis
  proof (induction pre arbitrary: p)
    case Nil
    then have c: "p = c" "c \<noteq> 0" and rest: "chain h (next_c (h c)) post"
      and nin: "c \<notin> set post" "n \<notin> set post" by auto
    have "chain h' (next_c (h c)) post = chain h (next_c (h c)) post"
      using nin assms(6) by (intro chain_cong) metis
    with rest c assms(3,4,5) show ?case by simp
  next
    case (Cons x pre)
    then have "x \<noteq> c" "x \<noteq> n" by auto
    then have "next_c (h' x) = next_c (h x)" by (rule assms(6))
    with Cons show ?case by auto
  qed
qed

lemma chain_append_new:
  assumes "chain h p cs" and "c \<notin> set cs" and "c \<noteq> 0" and "next_c (h' c) = 0"
    and "cs \<noteq> [] \<Longrightarrow> next_c (h' (last cs)) = c"
    and "\<And>x. x \<in> set (butlast cs) \<Longrightarrow> next_c (h' x) = next_c (h x)"
  shows "chain h' (if cs = [] then c else p) (cs @ [c])"
  using assms(1,2,5,6)
proof (induction cs arbitrary: p)
  case Nil
  then show ?case using assms(3,4) by simp
next
  case (Cons x xs)
  then have x: "p = x" "x \<noteq> 0" "x \<noteq> c" and rest: "chain h (next_c (h x)) xs"
    and nin: "c \<notin> set xs" by auto
  show ?case
  proof (cases "xs = []")
    case True
    with Cons.prems x assms(3,4) show ?thesis by auto
  next
    case False
    have l: "next_c (h' (last xs)) = c" using Cons.prems(3) False by simp
    have b: "\<And>y. y \<in> set (butlast xs) \<Longrightarrow> next_c (h' y) = next_c (h y)"
      using Cons.prems(4) False by simp
    have nx: "next_c (h' x) = next_c (h x)" using Cons.prems(4) False by simp
    from Cons.IH [OF rest nin l b] False
    have "chain h' (next_c (h x)) (xs @ [c])" by simp
    with x nx show ?thesis by simp
  qed
qed

text \<open>The result of an allocation that found no chunk and was granted new space.\<close>

lemma myAlloc_grown:
  assumes nz: "bytes \<noteq> 0"
    and ch: "chain (heap s) (allChunks s) cs"
    and miss: "\<forall>x \<in> set cs. \<not> fits (heap s) (ALIGN bytes) x"
    and res: "myAlloc ok bytes f l s = Some (p, s1)" and p: "p \<noteq> 0"
    and fresh: "brk s \<notin> set cs"
  shows "p = brk s + CHUNK_SIZE"
    and "allChunks s1 = (if cs = [] then brk s else allChunks s)"
    and "heap s1 (brk s) = (heap s (brk s))
           \<lparr>size_c := ALIGN bytes, magic := MAGIC_NUMBER, next_c := 0, isFree := False,
            file_c := f, line_c := l\<rparr>"
    and "cs \<noteq> [] \<Longrightarrow> heap s1 (last cs) = (heap s (last cs))\<lparr>next_c := brk s\<rparr>"
    and "\<And>x. x \<noteq> brk s \<Longrightarrow> cs = [] \<or> x \<noteq> last cs \<Longrightarrow> heap s1 x = heap s x"
proof -
  from miss have fn: "find (fits (heap s) (ALIGN bytes)) cs = None"
    by (simp add: find_None_iff)
  from miss have tw: "takeWhile (\<lambda>c. \<not> fits (heap s) (ALIGN bytes) c) cs = cs" by simp
  have ff: "findFreeChunk s lastp (ALIGN bytes) = Some (0, last (lastp # cs))" for lastp
    unfolding findFreeChunk_def using findFreeLoop_chain [OF ch, of lastp "ALIGN bytes"] fn tw
    by simp
  have e: "(cs = []) = (allChunks s = 0)" using ch by (rule chain_empty_iff)
  have lz: "cs \<noteq> [] \<Longrightarrow> last cs \<noteq> 0"
    using chain_nonzero [OF ch] last_in_set [of cs] by metis
  have lb: "cs = [] \<or> brk s \<noteq> last cs"
    using fresh last_in_set [of cs] by metis
  obtain q s' where w: "sbrkWithStats ok (ALIGN bytes + CHUNK_SIZE) s = (q, s')"
    by (cases "sbrkWithStats ok (ALIGN bytes + CHUNK_SIZE) s")
  with res nz p ff e have q: "q \<noteq> - 1"
    by (auto simp: myAlloc_def Let_def split: if_splits)
  with w have qs: "q = brk s" "heap s' = heap s" "allChunks s' = allChunks s"
    by (auto simp: sbrkWithStats_def sbrk_def split: if_splits)
  define h4 where
    "h4 = set_isFree q False (set_next q 0 (set_magic q MAGIC_NUMBER
            (set_size q (ALIGN bytes) (heap s))))"
  have s1: "s1 = stamp_origin q f l
                   (if cs \<noteq> [] then s'\<lparr>heap := set_next (last cs) q h4\<rparr>
                    else s'\<lparr>heap := h4, allChunks := q\<rparr>)"
    and pq: "p = q + CHUNK_SIZE"
    using res nz ff e w q qs(2) lz
    by (auto simp: myAlloc_def Let_def h4_def split: if_splits)
  show "p = brk s + CHUNK_SIZE" using pq qs by simp
  show "allChunks s1 = (if cs = [] then brk s else allChunks s)"
    using s1 qs by (simp add: stamp_origin_def)
  show "heap s1 (brk s) = (heap s (brk s))
           \<lparr>size_c := ALIGN bytes, magic := MAGIC_NUMBER, next_c := 0, isFree := False,
            file_c := f, line_c := l\<rparr>"
    using s1 qs lb by (auto simp: stamp_origin_def h4_def field_setters)
  show "cs \<noteq> [] \<Longrightarrow> heap s1 (last cs) = (heap s (last cs))\<lparr>next_c := brk s\<rparr>"
    using s1 qs lb by (auto simp: stamp_origin_def h4_def field_setters)
  show "\<And>x. x \<noteq> brk s \<Longrightarrow> cs = [] \<or> x \<noteq> last cs \<Longrightarrow> heap s1 x = heap s x"
    using s1 qs by (auto simp: stamp_origin_def h4_def field_setters)
qed

lemma butlast_not_last: "distinct cs \<Longrightarrow> x \<in> set (butlast cs) \<Longrightarrow> x \<noteq> last cs"
proof -
  assume d: "distinct cs" and x: "x \<in> set (butlast cs)"
  then have "cs \<noteq> []" by auto
  then have "cs = butlast cs @ [last cs]" by simp
  with d have "distinct (butlast cs @ [last cs])" by simp
  with x show ?thesis by auto
qed

lemma wf_limit: "unat (brk s) < 2 ^ 64"
  using unsigned_less [of "brk s", where 'a = nat] by simp

lemma first_alloc_grow:
  assumes wf: "wf s cs" and nz: "n \<noteq> 0" and res: "myAlloc ok n f l s = Some (p, s1)"
    and p: "p \<noteq> 0" and miss: "\<forall>x \<in> set cs. \<not> fits (heap s) (ALIGN n) x"
  shows "p = brk s + CHUNK_SIZE \<and> brk s \<notin> set cs
      \<and> chain (heap s1) (allChunks s1) (cs @ [brk s])
      \<and> (\<forall>x \<in> set cs. isFree (heap s1 x) = isFree (heap s x)
                       \<and> size_c (heap s1 x) = size_c (heap s x))
      \<and> size_c (heap s1 (brk s)) = ALIGN n"
proof -
  from wf have ch: "chain (heap s) (allChunks s) cs"
    and srt: "sorted (bounds (heap s) cs @ [unat (brk s)])" and b0: "brk s \<noteq> 0"
    by (simp_all add: wf_def)
  have fresh: "brk s \<notin> set cs"
  proof
    assume "brk s \<in> set cs"
    from layout_all_below [OF srt this] chunk_end_beyond [of "brk s" "heap s"]
    show False by simp
  qed
  note g = myAlloc_grown [OF nz ch miss res p fresh]
  have d: "distinct cs" using ch by (rule chain_distinct)
  have "chain (heap s1) (if cs = [] then brk s else allChunks s) (cs @ [brk s])"
  proof (rule chain_append_new [OF ch fresh b0])
    show "next_c (heap s1 (brk s)) = 0" by (simp add: g(3))
    show "cs \<noteq> [] \<Longrightarrow> next_c (heap s1 (last cs)) = brk s" by (simp add: g(4))
    fix x assume x: "x \<in> set (butlast cs)"
    then have "x \<in> set cs" by (rule in_set_butlastD)
    with fresh have "x \<noteq> brk s" by auto
    moreover have "x \<noteq> last cs" using d x by (rule butlast_not_last)
    ultimately have "heap s1 x = heap s x" by (intro g(5)) simp_all
    then show "next_c (heap s1 x) = next_c (heap s x)" by simp
  qed
  then have c1: "chain (heap s1) (allChunks s1) (cs @ [brk s])" by (simp add: g(2))
  have same: "isFree (heap s1 x) = isFree (heap s x) \<and> size_c (heap s1 x) = size_c (heap s x)"
    if "x \<in> set cs" for x
  proof (cases "x = last cs")
    case True
    with that have "cs \<noteq> []" by auto
    from g(4) [OF this] True show ?thesis by simp
  next
    case False
    moreover from that fresh have "x \<noteq> brk s" by auto
    ultimately have "heap s1 x = heap s x" by (intro g(5)) simp_all
    then show ?thesis by simp
  qed
  show ?thesis using g(1) fresh c1 same by (simp add: g(3))
qed

lemma first_alloc_reuse:
  assumes wf: "wf s cs" and nz: "n \<noteq> 0" and res: "myAlloc ok n f l s = Some (p, s1)"
    and cs: "cs = pre @ c # post"
    and pre: "\<forall>x \<in> set pre. \<not> fits (heap s) (ALIGN n) x" and c: "fits (heap s) (ALIGN n) c"
  shows "p = c + CHUNK_SIZE
      \<and> (\<exists>rest1. chain (heap s1) (allChunks s1) (pre @ c # rest1)
            \<and> ALIGN n \<le> size_c (heap s1 c) + absorbed (heap s1) rest1)
      \<and> (\<forall>x \<in> set pre. heap s1 x = heap s x)"
proof -
  let ?h = "heap s" and ?sz = "ALIGN n"
  from wf cs have ch: "chain ?h (allChunks s) (pre @ c # post)"
    and srt: "sorted (bounds ?h (pre @ c # post) @ [unat (brk s)])"
    by (simp_all add: wf_def)
  have d: "distinct (pre @ c # post)" using ch by (rule chain_distinct)
  have head: "allChunks s \<noteq> 0" using ch by (rule chain_head_nonzero) simp
  have c0: "c \<noteq> 0" using chain_nonzero [OF ch] by auto
  have fnd: "find (fits ?h ?sz) (pre @ c # post) = Some c"
    using pre c by (simp add: find_append find_None_iff [THEN iffD2])
  have tw: "takeWhile (\<lambda>x. \<not> fits ?h ?sz x) (pre @ c # post) = pre"
    using pre c by (simp add: takeWhile_append2 takeWhile_tail)
  have ff: "findFreeChunk s (allChunks s) ?sz = Some (c, last (allChunks s # pre))"
    unfolding findFreeChunk_def
    using findFreeLoop_chain [OF ch, of "allChunks s" ?sz] fnd tw by simp
  note fo = myAlloc_found [OF nz head ff c0]
  have cap: "size_c (?h c) \<le> size_c (?h c) + absorbed ?h post"
    using srt wf_limit by (rule release_keeps_capacity)
  with fo(1) have enough: "?sz \<le> size_c (?h c) + absorbed ?h post" by simp
  show ?thesis
  proof (cases "CHUNK_SIZE + ALIGNMENT \<le> size_c (?h c) - ?sz")
    case False
    from fo(3) [OF False, of ok f l] res
    have p: "p = c + CHUNK_SIZE"
      and s1: "s1 = s\<lparr>heap := ?h(c := (?h c)\<lparr>isFree := False, file_c := f, line_c := l\<rparr>)\<rparr>"
      by simp_all
    have "chain (heap s1) (allChunks s1) (pre @ c # post)"
      using ch by (simp add: s1 chain_cong [of _ "?h(c := (?h c)\<lparr>isFree := False, file_c := f, line_c := l\<rparr>)" ?h])
    moreover have "absorbed (heap s1) post = absorbed ?h post"
      using d by (simp add: s1)
    moreover have "size_c (heap s1 c) = size_c (?h c)" by (simp add: s1)
    moreover have "\<forall>x \<in> set pre. heap s1 x = ?h x" using d by (auto simp: s1)
    ultimately show ?thesis using p enough by auto
  next
    case True
    let ?n = "c + ?sz + CHUNK_SIZE"
    from fo(2) [OF True, of ok f l] res
    have p: "p = c + CHUNK_SIZE" and ne: "?n \<noteq> c"
      and s1: "s1 = s\<lparr>heap := ?h
                      (?n := (?h ?n)\<lparr>magic := MAGIC_NUMBER,
                                     size_c := size_c (?h c) - ?sz - CHUNK_SIZE,
                                     isFree := True, next_c := next_c (?h c)\<rparr>,
                       c := (?h c)\<lparr>size_c := ?sz, isFree := False, next_c := ?n,
                                   file_c := f, line_c := l\<rparr>)\<rparr>"
      by simp_all
    have small: "unat c + 48 + unat (size_c (?h c)) < 2 ^ 64"
      using layout_top [OF srt] wf_limit [of s] by (simp add: chunk_end_def CHUNK_SIZE_def)
    note ar = split_arith [OF small fo(1) True]
    have n_pre: "?n \<notin> set pre"
    proof
      assume "?n \<in> set pre"
      from layout_before [OF srt this] chunk_end_beyond [of ?n ?h] ar(1) show False by simp
    qed
    have n_post: "?n \<notin> set post"
    proof
      assume "?n \<in> set post"
      from layout_after [OF srt this] ar(1,3) show False
        by (simp add: chunk_end_def CHUNK_SIZE_def)
    qed
    have n0: "?n \<noteq> 0" using ar(1) by (metis add_is_0 unat_0 zero_neq_numeral)
    have nin: "?n \<notin> set (pre @ c # post)" using n_pre n_post ne by simp
    have c1: "chain (heap s1) (allChunks s1) (pre @ c # ?n # post)"
    proof -
      have "chain (heap s1) (allChunks s) (pre @ c # ?n # post)"
        using ch nin n0
      proof (rule chain_insert_after)
        show "next_c (heap s1 c) = ?n" by (simp add: s1)
        show "next_c (heap s1 ?n) = next_c (?h c)" using ne by (simp add: s1)
        show "\<And>x. x \<noteq> c \<Longrightarrow> x \<noteq> ?n \<Longrightarrow> next_c (heap s1 x) = next_c (?h x)"
          by (simp add: s1)
      qed
      then show ?thesis by (simp add: s1)
    qed
    have c_post: "c \<notin> set post" using d by auto
    have ab: "absorbed (heap s1) post = absorbed ?h post"
      using n_post c_post by (simp add: s1)
    have "size_c (heap s1 c) + absorbed (heap s1) (?n # post)
            = size_c (?h c) + absorbed ?h post"
      using ne ab by (simp add: s1)
    with enough have "?sz \<le> size_c (heap s1 c) + absorbed (heap s1) (?n # post)" by simp
    moreover have "\<forall>x \<in> set pre. heap s1 x = ?h x"
      using d n_pre by (auto simp: s1)
    ultimately show ?thesis using p c1 by blast
  qed
qed

lemma find_in_set: "find P xs = Some x \<Longrightarrow> x \<in> set xs"
  by (induction xs) (auto split: if_splits)

lemma wf_count_request [simp]: "wf (s\<lparr>mem_stats := st\<rparr>) cs = wf s cs"
  by (simp add: wf_def)

lemma first_alloc_summary:
  assumes wf: "wf s cs" and nz: "n \<noteq> 0" and res: "myAlloc ok n f l s = Some (p, s1)"
    and p: "p \<noteq> 0"
  shows "\<exists>c rest1. p = c + CHUNK_SIZE
      \<and> chain (heap s1) (allChunks s1) (takeWhile (\<lambda>x. x \<noteq> c) cs @ c # rest1)
      \<and> (\<forall>x \<in> set (takeWhile (\<lambda>x. x \<noteq> c) cs).
            isFree (heap s1 x) = isFree (heap s x) \<and> size_c (heap s1 x) = size_c (heap s x)
            \<and> \<not> fits (heap s) (ALIGN n) x)
      \<and> ALIGN n \<le> size_c (heap s1 c) + absorbed (heap s1) rest1"
proof (cases "find (fits (heap s) (ALIGN n)) cs")
  case None
  then have miss: "\<forall>x \<in> set cs. \<not> fits (heap s) (ALIGN n) x" by (simp add: find_None_iff)
  from first_alloc_grow [OF wf nz res p miss]
  have g: "p = brk s + CHUNK_SIZE" "brk s \<notin> set cs"
    "chain (heap s1) (allChunks s1) (cs @ [brk s])"
    "\<forall>x \<in> set cs. isFree (heap s1 x) = isFree (heap s x)
                       \<and> size_c (heap s1 x) = size_c (heap s x)"
    "size_c (heap s1 (brk s)) = ALIGN n"
    by simp_all
  have tw: "takeWhile (\<lambda>x. x \<noteq> brk s) cs = cs" using g(2) by (rule takeWhile_neq_all)
  show ?thesis
    by (rule exI [of _ "brk s"], rule exI [of _ "[]"]) (use g miss in \<open>simp add: tw\<close>)
next
  case (Some c)
  from find_split [OF Some] obtain post where
    cs: "cs = takeWhile (\<lambda>x. \<not> fits (heap s) (ALIGN n) x) cs @ c # post"
    and c: "fits (heap s) (ALIGN n) c" by blast
  define pre where "pre = takeWhile (\<lambda>x. \<not> fits (heap s) (ALIGN n) x) cs"
  have cs': "cs = pre @ c # post" using cs by (simp add: pre_def)
  have nofit: "\<forall>x \<in> set pre. \<not> fits (heap s) (ALIGN n) x"
    unfolding pre_def by (auto dest: set_takeWhileD)
  from wf have "distinct cs" by (auto simp: wf_def dest: chain_distinct)
  with cs' have "c \<notin> set pre" by auto
  then have tw: "takeWhile (\<lambda>x. x \<noteq> c) cs = pre"
    unfolding cs' by (rule takeWhile_neq_prefix)
  from first_alloc_reuse [OF wf nz res cs' nofit c] obtain rest1 where
    r: "p = c + CHUNK_SIZE" "chain (heap s1) (allChunks s1) (pre @ c # rest1)"
       "ALIGN n \<le> size_c (heap s1 c) + absorbed (heap s1) rest1"
       "\<forall>x \<in> set pre. heap s1 x = heap s x"
    by blast
  show ?thesis
    by (rule exI [of _ c], rule exI [of _ rest1]) (use r nofit in \<open>simp add: tw\<close>)
qed

subsection \<open>Well-formed states stay well-formed\<close>

text \<open>The start state is well-formed, and both entry points return on a well-formed
  state and leave it well-formed: the allocation for a request of at most
  \<open>2\<^sup>6\<^sup>4 - 56\<close> bytes (so that the rounded size plus the header does not wrap), the
  release for the payload address of a chunk of the chain.\<close>

lemma wf_init: "b \<noteq> 0 \<Longrightarrow> wf (init b) []"
  by (simp add: wf_def init_def)

lemma myAlloc_returns:
  assumes "chain (heap s) (allChunks s) cs"
  shows "\<exists>r. myAlloc ok n f l s = Some r"
proof -
  have "\<exists>r. findFreeChunk s (allChunks s) (ALIGN n) = Some r"
    unfolding findFreeChunk_def
    using findFreeLoop_chain [OF assms, of "allChunks s" "ALIGN n"] by simp
  then show ?thesis
    by (auto simp: myAlloc_def Let_def split: prod.splits)
qed

lemma sorted_insert_between:
  "sorted (xs @ a # d # ys) \<Longrightarrow> a \<le> b \<Longrightarrow> b \<le> d \<Longrightarrow> sorted (xs @ a # b # b # d # ys)"
  for a b d :: nat
  by (auto simp: sorted_append)

lemma sorted_raise_top:
  "sorted (xs @ [a]) \<Longrightarrow> a \<le> b \<Longrightarrow> b \<le> c \<Longrightarrow> sorted (xs @ [a, b, c])" for a b c :: nat
  by (auto simp: sorted_append)

lemma ALIGN_bound:
  assumes "unat n \<le> 2 ^ 64 - 56"
  shows "unat (ALIGN n + CHUNK_SIZE) = unat (ALIGN n) + 48"
proof -
  have "unat (ALIGN n) = (unat n + 7) div 8 * 8" using assms by (intro unat_ALIGN) simp
  moreover have "(unat n + 7) div 8 * 8 \<le> unat n + 7" by simp
  ultimately have "unat (ALIGN n) + unat CHUNK_SIZE < 2 ^ 64"
    using assms by (simp add: CHUNK_SIZE_def)
  then have "unat (ALIGN n + CHUNK_SIZE) = unat (ALIGN n) + unat CHUNK_SIZE"
    by (rule unat_add_small)
  then show ?thesis by (simp add: CHUNK_SIZE_def)
qed

text \<open>An allocation keeps a well-formed state well-formed.\<close>

lemma myAlloc_wf:
  assumes wf: "wf s cs" and n: "unat n \<le> 2 ^ 64 - 56"
    and res: "myAlloc ok n f l s = Some (p, s1)"
  shows "\<exists>cs1. wf s1 cs1"
proof (cases "n = 0")
  case True
  with res wf show ?thesis by (auto simp: myAlloc_def)
next
  case nz: False
  let ?h = "heap s" and ?sz = "ALIGN n"
  from wf have ch: "chain ?h (allChunks s) cs"
    and srt: "sorted (bounds ?h cs @ [unat (brk s)])" and b0: "brk s \<noteq> 0"
    by (simp_all add: wf_def)
  show ?thesis
  proof (cases "find (fits ?h ?sz) cs")
    case None
    then have miss: "\<forall>x \<in> set cs. \<not> fits ?h ?sz x" by (simp add: find_None_iff)
    show ?thesis
    proof (cases "p = 0")
      case True
      have "fst (sbrk ok (?sz + CHUNK_SIZE) s) = - 1"
      proof (rule ccontr)
        assume "fst (sbrk ok (?sz + CHUNK_SIZE) s) \<noteq> - 1"
        then have g: "ok" "unat (brk s) + unat (?sz + CHUNK_SIZE) < 2 ^ 64"
          by (auto simp: sbrk_def split: if_splits)
        have fn: "find (fits ?h ?sz) cs = None" by (rule None)
        from miss have tw: "takeWhile (\<lambda>c. \<not> fits ?h ?sz c) cs = cs" by simp
        have ff: "findFreeChunk s lastp ?sz = Some (0, last (lastp # cs))" for lastp
          unfolding findFreeChunk_def using findFreeLoop_chain [OF ch, of lastp ?sz] fn tw
          by simp
        have "brk s + CHUNK_SIZE \<noteq> 0"
        proof -
          have "unat (brk s) + unat CHUNK_SIZE < 2 ^ 64"
            using g(2) ALIGN_bound [OF n] by (simp add: CHUNK_SIZE_def)
          then have "unat (brk s + CHUNK_SIZE) = unat (brk s) + unat CHUNK_SIZE"
            by (rule unat_add_small)
          then show ?thesis by (metis add_is_0 b0 unat_eq_0)
        qed
        moreover have "brk s \<noteq> - 1"
        proof
          assume "brk s = - 1"
          then have "unat (brk s) = 18446744073709551615"
            by (simp add: unsigned_minus_1_eq_mask mask_eq_exp_minus_1)
          with g(2) ALIGN_bound [OF n] show False by simp
        qed
        ultimately have "p \<noteq> 0"
          using res nz ff g
          by (auto simp: myAlloc_def Let_def sbrkWithStats_def sbrk_def split: if_splits)
        with True show False by simp
      qed
      from myAlloc_growth_fails [OF nz ch miss this, of f l] res
      have "s1 = s\<lparr>mem_stats := (mem_stats s)\<lparr>sbrkCalls := sbrkCalls (mem_stats s) + 1\<rparr>\<rparr>"
        by simp
      with wf show ?thesis by (auto simp: wf_def)
    next
      case False
      from first_alloc_grow [OF wf nz res False miss]
      have g: "p = brk s + CHUNK_SIZE" "brk s \<notin> set cs"
        "chain (heap s1) (allChunks s1) (cs @ [brk s])"
        "\<forall>x \<in> set cs. isFree (heap s1 x) = isFree (?h x) \<and> size_c (heap s1 x) = size_c (?h x)"
        "size_c (heap s1 (brk s)) = ?sz"
        by simp_all
      have fn: "find (fits ?h ?sz) cs = None" by (rule None)
      from miss have tw: "takeWhile (\<lambda>c. \<not> fits ?h ?sz c) cs = cs" by simp
      have ff: "findFreeChunk s lastp ?sz = Some (0, last (lastp # cs))" for lastp
        unfolding findFreeChunk_def using findFreeLoop_chain [OF ch, of lastp ?sz] fn tw
        by simp
      have grant: "ok \<and> unat (brk s) + unat (?sz + CHUNK_SIZE) < 2 ^ 64"
        and b1: "brk s1 = brk s + (?sz + CHUNK_SIZE)"
        using res nz ff False
        by (auto simp: myAlloc_def Let_def sbrkWithStats_def sbrk_def stamp_origin_def
            split: if_splits)
      have ub: "unat (brk s1) = unat (brk s) + unat ?sz + 48"
        using grant unat_add_small [of "brk s" "?sz + CHUNK_SIZE"] ALIGN_bound [OF n]
        by (simp add: b1)
      have bs: "bounds (heap s1) cs = bounds ?h cs"
        using g(4) by (intro bounds_cong) simp
      have "sorted (bounds ?h cs @ [unat (brk s), chunk_end (heap s1) (brk s), unat (brk s1)])"
        using srt by (rule sorted_raise_top) (simp_all add: chunk_end_def g(5) ub CHUNK_SIZE_def)
      then have "sorted (bounds (heap s1) (cs @ [brk s]) @ [unat (brk s1)])"
        by (simp add: bs)
      moreover have "brk s1 \<noteq> 0" using ub b0 by (metis add_is_0 unat_eq_0)
      ultimately have "wf s1 (cs @ [brk s])" using g(3) by (simp add: wf_def)
      then show ?thesis ..
    qed
  next
    case (Some c)
    from find_split [OF Some] obtain post where
      cs: "cs = takeWhile (\<lambda>x. \<not> fits ?h ?sz x) cs @ c # post"
      and c: "fits ?h ?sz c" by blast
    define pre where "pre = takeWhile (\<lambda>x. \<not> fits ?h ?sz x) cs"
    have cs': "cs = pre @ c # post" using cs by (simp add: pre_def)
    have nofit: "\<forall>x \<in> set pre. \<not> fits ?h ?sz x"
      unfolding pre_def by (auto dest: set_takeWhileD)
    from ch cs' have ch': "chain ?h (allChunks s) (pre @ c # post)" by simp
    from srt cs' have srt': "sorted (bounds ?h (pre @ c # post) @ [unat (brk s)])" by simp
    have d: "distinct (pre @ c # post)" using ch' by (rule chain_distinct)
    have head: "allChunks s \<noteq> 0" using ch' by (rule chain_head_nonzero) simp
    have c0: "c \<noteq> 0" using chain_nonzero [OF ch'] by auto
    have fnd: "find (fits ?h ?sz) (pre @ c # post) = Some c"
      using nofit c by (simp add: find_append find_None_iff [THEN iffD2])
    have tw: "takeWhile (\<lambda>x. \<not> fits ?h ?sz x) (pre @ c # post) = pre"
      using nofit c by (simp add: takeWhile_append2 takeWhile_tail)
    have ff: "findFreeChunk s (allChunks s) ?sz = Some (c, last (allChunks s # pre))"
      unfolding findFreeChunk_def
      using findFreeLoop_chain [OF ch', of "allChunks s" ?sz] fnd tw by simp
    note fo = myAlloc_found [OF nz head ff c0]
    show ?thesis
    proof (cases "CHUNK_SIZE + ALIGNMENT \<le> size_c (?h c) - ?sz")
      case False
      from fo(3) [OF False, of ok f l] res
      have s1: "s1 = s\<lparr>heap := ?h(c := (?h c)\<lparr>isFree := False, file_c := f, line_c := l\<rparr>)\<rparr>"
        by simp
      have "chain (heap s1) (allChunks s1) cs"
        using ch by (simp add: s1 chain_cong [of _ "?h(c := (?h c)\<lparr>isFree := False, file_c := f, line_c := l\<rparr>)" ?h])
      moreover have "bounds (heap s1) cs = bounds ?h cs"
        by (rule bounds_cong) (simp add: s1)
      ultimately have "wf s1 cs" using srt b0 by (simp add: wf_def s1)
      then show ?thesis ..
    next
      case True
      let ?n = "c + ?sz + CHUNK_SIZE"
      from fo(2) [OF True, of ok f l] res
      have ne: "?n \<noteq> c"
        and s1: "s1 = s\<lparr>heap := ?h
                      (?n := (?h ?n)\<lparr>magic := MAGIC_NUMBER,
                                     size_c := size_c (?h c) - ?sz - CHUNK_SIZE,
                                     isFree := True, next_c := next_c (?h c)\<rparr>,
                       c := (?h c)\<lparr>size_c := ?sz, isFree := False, next_c := ?n,
                                   file_c := f, line_c := l\<rparr>)\<rparr>"
        by simp_all
      have small: "unat c + 48 + unat (size_c (?h c)) < 2 ^ 64"
        using layout_top [OF srt'] wf_limit [of s] by (simp add: chunk_end_def CHUNK_SIZE_def)
      note ar = split_arith [OF small fo(1) True]
      have n_pre: "?n \<notin> set pre"
      proof
        assume "?n \<in> set pre"
        from layout_before [OF srt' this] chunk_end_beyond [of ?n ?h] ar(1) show False by simp
      qed
      have n_post: "?n \<notin> set post"
      proof
        assume "?n \<in> set post"
        from layout_after [OF srt' this] ar(1,3) show False
          by (simp add: chunk_end_def CHUNK_SIZE_def)
      qed
      have n0: "?n \<noteq> 0" using ar(1) by (metis add_is_0 unat_0 zero_neq_numeral)
      have nin: "?n \<notin> set (pre @ c # post)" using n_pre n_post ne by simp
      have c1: "chain (heap s1) (allChunks s1) (pre @ c # ?n # post)"
      proof -
        have "chain (heap s1) (allChunks s) (pre @ c # ?n # post)"
          using ch' nin n0
        proof (rule chain_insert_after)
          show "next_c (heap s1 c) = ?n" by (simp add: s1)
          show "next_c (heap s1 ?n) = next_c (?h c)" using ne by (simp add: s1)
          show "\<And>x. x \<noteq> c \<Longrightarrow> x \<noteq> ?n \<Longrightarrow> next_c (heap s1 x) = next_c (?h x)"
            by (simp add: s1)
        qed
        then show ?thesis by (simp add: s1)
      qed
      have bp: "bounds (heap s1) pre = bounds ?h pre"
        using d n_pre by (intro bounds_cong) (auto simp: s1)
      have bq: "bounds (heap s1) post = bounds ?h post"
        using d n_post by (intro bounds_cong) (auto simp: s1)
      have e1: "chunk_end (heap s1) c = unat ?n"
        using ar(1) by (simp add: chunk_end_def s1 CHUNK_SIZE_def)
      have e2: "chunk_end (heap s1) ?n = chunk_end ?h c"
        using ar ne by (simp add: chunk_end_def s1 CHUNK_SIZE_def)
      have "sorted (bounds ?h pre @ unat c # chunk_end ?h c # (bounds ?h post @ [unat (brk s)]))"
        using srt' by simp
      then have "sorted (bounds ?h pre @ unat c # unat ?n # unat ?n # chunk_end ?h c
                   # (bounds ?h post @ [unat (brk s)]))"
        by (rule sorted_insert_between) (use ar in \<open>simp_all add: chunk_end_def CHUNK_SIZE_def\<close>)
      moreover have "brk s1 = brk s" by (simp add: s1)
      ultimately have "sorted (bounds (heap s1) (pre @ c # ?n # post) @ [unat (brk s1)])"
        by (simp add: bp bq e1 e2)
      then have "wf s1 (pre @ c # ?n # post)" using c1 b0 by (simp add: wf_def s1)
      then show ?thesis ..
    qed
  qed
qed

lemma absorbed_below_next:
  "sorted (lo # bounds h rest @ [lim]) \<Longrightarrow> lim < 2 ^ 64 \<Longrightarrow>
   sorted ((lo + unat (absorbed h rest)) # bounds h (dropWhile (\<lambda>x. isFree (h x)) rest) @ [lim])"
proof (induction rest arbitrary: lo)
  case Nil
  then show ?case by simp
next
  case (Cons x xs)
  show ?case
  proof (cases "isFree (h x)")
    case False
    with Cons.prems show ?thesis by simp
  next
    case True
    from Cons.prems have s': "sorted (chunk_end h x # bounds h xs @ [lim])" by simp
    from absorbed_below_top [OF s' Cons.prems(2)]
    have "chunk_end h x + unat (absorbed h xs) \<le> lim" .
    then have small: "unat x + 48 + unat (size_c (h x)) + unat (absorbed h xs) < 2 ^ 64"
      using Cons.prems(2) by (simp add: chunk_end_def CHUNK_SIZE_def)
    have "unat (CHUNK_SIZE + size_c (h x)) = 48 + unat (size_c (h x))"
      using small unat_add_small [of CHUNK_SIZE "size_c (h x)"] by (simp add: CHUNK_SIZE_def)
    moreover from this have
      "unat (CHUNK_SIZE + size_c (h x) + absorbed h xs)
         = 48 + unat (size_c (h x)) + unat (absorbed h xs)"
      using small unat_add_small [of "CHUNK_SIZE + size_c (h x)" "absorbed h xs"] by simp
    moreover have "lo \<le> unat x" using Cons.prems(1) by simp
    ultimately have le: "lo + unat (absorbed h (x # xs)) \<le> chunk_end h x + unat (absorbed h xs)"
      using True by (simp add: chunk_end_def CHUNK_SIZE_def)
    from Cons.IH [OF s' Cons.prems(2)]
    have "sorted ((chunk_end h x + unat (absorbed h xs))
                  # bounds h (dropWhile (\<lambda>x. isFree (h x)) xs) @ [lim])" .
    with le True show ?thesis by auto
  qed
qed

lemma in_bounds_dropWhile:
  "y \<in> set (bounds h (dropWhile P cs)) \<Longrightarrow> y \<in> set (bounds h cs)"
  by (induction cs) (auto split: if_splits)

text \<open>The release of a chunk of the chain keeps a well-formed state well-formed.\<close>

lemma heapFree_wf:
  assumes wf: "wf s cs" and c: "ptr - CHUNK_SIZE \<in> set cs" and nn: "ptr \<noteq> 0"
  shows "\<exists>s1 cs1. heapFree ptr s = Some s1 \<and> wf s1 cs1"
proof -
  let ?h = "heap s" and ?c = "ptr - CHUNK_SIZE"
  from c obtain pre rest where cs: "cs = pre @ ?c # rest" by (meson split_list)
  from wf cs have ch: "chain ?h (allChunks s) (pre @ ?c # rest)"
    and srt: "sorted (bounds ?h (pre @ ?c # rest) @ [unat (brk s)])" and b0: "brk s \<noteq> 0"
    by (simp_all add: wf_def)
  have d: "distinct (pre @ ?c # rest)" using ch by (rule chain_distinct)
  have pn: "?c + CHUNK_SIZE \<noteq> 0" using nn by simp
  let ?kept = "dropWhile (\<lambda>x. isFree (?h x)) rest"
  define s1 where
    "s1 = (if magic (?h ?c) \<noteq> MAGIC_NUMBER
           then s\<lparr>mem_stats :=
                   (mem_stats s)\<lparr>corruptedChunks := corruptedChunks (mem_stats s) + 1\<rparr>\<rparr>
           else s)\<lparr>heap := released ?h ?c rest\<rparr>"
  from heapFree_chain [OF ch pn] have f: "heapFree ptr s = Some s1" by (simp add: s1_def)
  have h1: "heap s1 = released ?h ?c rest" and hd1: "allChunks s1 = allChunks s"
    and b1: "brk s1 = brk s"
    by (simp_all add: s1_def)
  have ch1: "chain (heap s1) (allChunks s1) (pre @ ?c # ?kept)"
    using chain_released [OF ch] by (simp add: h1 hd1)
  have c_pre: "?c \<notin> set pre" and c_kept: "?c \<notin> set ?kept"
    using d by (auto dest: set_dropWhileD)
  have bp: "bounds (heap s1) pre = bounds ?h pre"
    using c_pre by (intro bounds_cong) (metis h1 released_other)
  have bk: "bounds (heap s1) ?kept = bounds ?h ?kept"
    using c_kept by (intro bounds_cong) (metis h1 released_other)
  from srt have s': "sorted (chunk_end ?h ?c # bounds ?h rest @ [unat (brk s)])"
    by (simp add: sorted_append)
  from absorbed_below_top [OF s' wf_limit]
  have "unat (size_c (?h ?c)) + unat (absorbed ?h rest) < 2 ^ 64"
    using wf_limit [of s] by (simp add: chunk_end_def)
  then have "unat (size_c (?h ?c) + absorbed ?h rest)
               = unat (size_c (?h ?c)) + unat (absorbed ?h rest)"
    by (rule unat_add_small)
  then have e: "chunk_end (heap s1) ?c = chunk_end ?h ?c + unat (absorbed ?h rest)"
    by (simp add: chunk_end_def h1)
  from absorbed_below_next [OF s' wf_limit]
  have tail: "sorted (chunk_end (heap s1) ?c # bounds ?h ?kept @ [unat (brk s)])"
    by (simp add: e)
  have "sorted (bounds ?h pre @ unat ?c # chunk_end (heap s1) ?c
                 # bounds ?h ?kept @ [unat (brk s)])"
  proof -
    have a: "sorted (bounds ?h pre)" and b: "\<forall>x \<in> set (bounds ?h pre). x \<le> unat ?c"
      and b': "\<forall>x \<in> set (bounds ?h pre). \<forall>y \<in> set (bounds ?h rest @ [unat (brk s)]). x \<le> y"
      and cc: "unat ?c \<le> chunk_end ?h ?c"
      and dd: "\<forall>y \<in> set (bounds ?h rest @ [unat (brk s)]). chunk_end ?h ?c \<le> y"
      using srt by (auto simp: sorted_append)
    have sub: "set (bounds ?h ?kept @ [unat (brk s)]) \<subseteq> set (bounds ?h rest @ [unat (brk s)])"
      by (auto dest: in_bounds_dropWhile)
    have ce: "chunk_end ?h ?c \<le> chunk_end (heap s1) ?c" by (simp add: e)
    show ?thesis
      using a b b' cc dd sub ce tail
      by (auto simp: sorted_append)
  qed
  then have "sorted (bounds (heap s1) (pre @ ?c # ?kept) @ [unat (brk s1)])"
    by (simp add: bp bk b1)
  with ch1 b0 have "wf s1 (pre @ ?c # ?kept)" by (simp add: wf_def b1)
  with f show ?thesis by blast
qed

lemma allocWithStats_wf:
  assumes "wf s cs" and "unat n \<le> 2 ^ 64 - 56"
  shows "\<exists>p s1 cs1. allocWithStats ok n f l s = Some (p, s1) \<and> wf s1 cs1"
proof -
  let ?s = "s\<lparr>mem_stats := count_request n (mem_stats s)\<rparr>"
  have w: "wf ?s cs" using assms(1) by simp
  then have "chain (heap ?s) (allChunks ?s) cs" by (simp add: wf_def)
  from myAlloc_returns [OF this, of ok n f l]
  obtain p s1 where r: "myAlloc ok n f l ?s = Some (p, s1)" by auto
  from myAlloc_wf [OF w assms(2) r] r show ?thesis by (auto simp: allocWithStats_def)
qed

subsection \<open>Allocate, release, allocate again\<close>




end
